theory Spec2Isabelle
  imports Complex_Main "HOL-Library.Word" "HOL-Library.Log_Nat"
begin

unbundle bit_operations_syntax

section \<open>Binary floating point, as far as utils.cc uses it\<close>

text \<open>
  \<^verbatim>\<open>bits_to_bytes\<close> computes in \<^verbatim>\<open>float\<close> and \<^verbatim>\<open>find_valid_seeds\<close> in
  \<^verbatim>\<open>double\<close>. Both are IEEE 754 binary formats with round-to-nearest, ties-to-even.
  A floating-point value is modelled by the rational number it denotes, and every
  operation by the exact rational result followed by \<open>fp_round p emin\<close>, the rounding
  to \<open>p\<close> significant bits with least exponent \<open>emin\<close>. Overflow to infinity is
  not modelled: all values of the program stay below \<open>2 ^ 33\<close>.
\<close>

definition floor_log2 :: "rat \<Rightarrow> int" where
  "floor_log2 x =
     (if 1 \<le> x then int (floorlog 2 (nat \<lfloor>x\<rfloor>)) - 1
      else - int (floorlog 2 (nat (\<lceil>1 / x\<rceil> - 1))))"

definition round_even :: "rat \<Rightarrow> int" where
  "round_even q =
     (let f = \<lfloor>q\<rfloor>; r = q - of_int f
      in if r < 1 / 2 then f else if 1 / 2 < r then f + 1
         else if even f then f else f + 1)"

definition fp_round :: "nat \<Rightarrow> int \<Rightarrow> rat \<Rightarrow> rat" where
  "fp_round p emin x =
     (if x = 0 then 0
      else let u = 2 powi (max (floor_log2 \<bar>x\<bar>) emin - int p + 1)
           in of_int (round_even (x / u)) * u)"

definition to_float :: "rat \<Rightarrow> rat" where
  "to_float = fp_round 24 (- 126)"

definition to_double :: "rat \<Rightarrow> rat" where
  "to_double = fp_round 53 (- 1022)"

text \<open>
  Conversion of a floating-point value to \<^verbatim>\<open>uint32_t\<close> truncates towards zero. It is
  defined for values from 0 up to \<open>2 ^ 32 - 1\<close>; the values that the program converts are
  in that range (see \<open>boundary_range\<close> for the seeds).
\<close>

definition to_uint32 :: "rat \<Rightarrow> 32 word" where
  "to_uint32 x = word_of_int (if 0 \<le> x then \<lfloor>x\<rfloor> else \<lceil>x\<rceil>)"

section \<open>Bit-size arithmetic\<close>

text \<open>
  \<^verbatim>\<open>uint32_t bits_to_bytes(uint32_t num_bits){ return ceil((float)num_bits / 8); }\<close>
  The cast rounds \<open>num_bits\<close> to a \<^verbatim>\<open>float\<close>, the division is a \<^verbatim>\<open>float\<close>
  division, and the result of \<^verbatim>\<open>ceil\<close> is converted back to \<^verbatim>\<open>uint32_t\<close>.
\<close>

definition bits_to_bytes :: "32 word \<Rightarrow> 32 word" where
  "bits_to_bytes num_bits =
     to_uint32 (of_int \<lceil>to_float (to_float (of_nat (unat num_bits)) / 8)\<rceil>)"

section \<open>Undefined behaviour\<close>

text \<open>
  Undefined behaviour of the C++ code is a value of the model: a read or write outside
  a buffer is \<open>OutOfBounds\<close>, an \<^verbatim>\<open>int\<close> that leaves its range is \<open>SignedOverflow\<close>,
  an array declared with a negative number of elements is \<open>NegativeArraySize\<close>.
\<close>

datatype fault = OutOfBounds | SignedOverflow | NegativeArraySize

section \<open>The seed-cracking engine\<close>

text \<open>
  The state of the loop of \<^verbatim>\<open>crack_seeds\<close>: the loop variable and the two
  reference parameters.
\<close>

record crack_state =
  seed :: "32 word"
  progress_counter :: "32 word"
  valid_seeds :: "32 word list"

text \<open>
  One pass through the body of the do-while loop, with the \<^verbatim>\<open>++seed\<close> of the loop
  condition. \<open>check_magic bits s\<close> stands for
  \<^verbatim>\<open>Extractor e(bits, s, true); e.check_magic()\<close>; the extractor is not part of
  utils.cc and is a parameter.
\<close>

definition crack_body ::
  "(bool list \<Rightarrow> 32 word \<Rightarrow> bool) \<Rightarrow> bool list \<Rightarrow> 32 word \<Rightarrow> crack_state \<Rightarrow> crack_state" where
  "crack_body check_magic bits start_seed s =
     \<lparr>seed = seed s + 1,
      progress_counter =
        (if (seed s - start_seed) mod 1000000 = 999999
         then progress_counter s + 1000000 else progress_counter s),
      valid_seeds =
        (if check_magic bits (seed s) then valid_seeds s @ [seed s] else valid_seeds s)\<rparr>"

function crack_loop ::
  "(bool list \<Rightarrow> 32 word \<Rightarrow> bool) \<Rightarrow> bool list \<Rightarrow> 32 word \<Rightarrow> 32 word \<Rightarrow> crack_state \<Rightarrow> crack_state" where
  "crack_loop check_magic bits start_seed end_seed s =
     (let s' = crack_body check_magic bits start_seed s
      in if seed s' \<noteq> end_seed then crack_loop check_magic bits start_seed end_seed s' else s')"
  by pat_completeness auto
termination
proof (relation "measure (\<lambda>(check_magic, bits, start_seed, end_seed, s). unat (end_seed - seed s - 1))")
  show "wf (measure (\<lambda>(check_magic, bits, start_seed, end_seed, s). unat (end_seed - seed s - 1)))"
    by simp
next
  fix check_magic bits start_seed end_seed s s'
  assume s': "s' = crack_body check_magic bits start_seed s" and ne: "seed s' \<noteq> end_seed"
  have sd: "seed s' = seed s + 1"
    by (simp add: s' crack_body_def)
  define a where "a = end_seed - seed s - 1"
  have nz: "a \<noteq> 0"
    using ne sd by (simp add: a_def algebra_simps)
  have eq: "end_seed - seed s' - 1 = a - 1"
    by (simp add: sd a_def)
  have "unat (a - 1) = unat a - 1"
    using nz by (rule unat_minus_one)
  moreover have "0 < unat a"
    using nz by (simp add: unat_gt_0)
  ultimately have "unat (end_seed - seed s' - 1) < unat a"
    by (simp only: eq)
  then show "((check_magic, bits, start_seed, end_seed, s'), (check_magic, bits, start_seed, end_seed, s))
      \<in> measure (\<lambda>(check_magic, bits, start_seed, end_seed, s). unat (end_seed - seed s - 1))"
    unfolding a_def by simp
qed

declare crack_loop.simps [simp del]

text \<open>
  \<^verbatim>\<open>crack_seeds\<close>: the loop from \<open>start_seed\<close>, then the final assignment to the
  progress counter. The result is the pair of the two reference parameters after the call.
\<close>

definition crack_seeds ::
  "(bool list \<Rightarrow> 32 word \<Rightarrow> bool) \<Rightarrow> bool list \<Rightarrow> 32 word \<Rightarrow> 32 word \<Rightarrow> 32 word \<Rightarrow> 32 word list
     \<Rightarrow> 32 word \<times> 32 word list" where
  "crack_seeds check_magic bits start_seed end_seed progress vs =
     (let s = crack_loop check_magic bits start_seed end_seed
                \<lparr>seed = start_seed, progress_counter = progress, valid_seeds = vs\<rparr>
      in (end_seed - start_seed, valid_seeds s))"

text \<open>
  The partition of \<^verbatim>\<open>find_valid_seeds\<close>. \<open>num_threads\<close> is a C \<^verbatim>\<open>int\<close>, a 32-bit
  word read as signed; \<^verbatim>\<open>UINT32_MAX\<close> is 4294967295. The quotient and the products
  are \<^verbatim>\<open>double\<close> operations; \<open>boundary n i\<close> is the \<^verbatim>\<open>double\<close> value of
  \<^verbatim>\<open>i * seeds_per_thread\<close>, and the seeds are its conversions to \<^verbatim>\<open>uint32_t\<close>. The
  quotient is used only when a worker exists, that is for \<open>num_threads \<ge> 1\<close>.
\<close>

definition seeds_per_thread :: "32 word \<Rightarrow> rat" where
  "seeds_per_thread num_threads = to_double (4294967295 / of_int (sint num_threads))"

definition boundary :: "32 word \<Rightarrow> nat \<Rightarrow> rat" where
  "boundary num_threads i = to_double (of_nat i * seeds_per_thread num_threads)"

definition start_seed_of :: "32 word \<Rightarrow> nat \<Rightarrow> 32 word" where
  "start_seed_of num_threads i = to_uint32 (boundary num_threads i)"

definition end_seed_of :: "32 word \<Rightarrow> nat \<Rightarrow> 32 word" where
  "end_seed_of num_threads i = to_uint32 (boundary num_threads (i + 1))"

text \<open>
  Worker \<open>i\<close> runs \<^verbatim>\<open>crack_seeds\<close> on its range with its own counter, zeroed by the
  \<^verbatim>\<open>memset\<close>, and its own empty result vector. The workers share no data, so the
  threads are modelled one after the other.
\<close>

definition worker ::
  "(bool list \<Rightarrow> 32 word \<Rightarrow> bool) \<Rightarrow> bool list \<Rightarrow> 32 word \<Rightarrow> nat \<Rightarrow> 32 word \<times> 32 word list" where
  "worker check_magic bits num_threads i =
     crack_seeds check_magic bits (start_seed_of num_threads i) (end_seed_of num_threads i) 0 []"

text \<open>
  The result vectors of the workers, appended in the order of the index: the loops of
  \<^verbatim>\<open>find_valid_seeds\<close> run for \<open>0 \<le> i < num_threads\<close>.
\<close>

definition merge_results ::
  "(bool list \<Rightarrow> 32 word \<Rightarrow> bool) \<Rightarrow> bool list \<Rightarrow> 32 word \<Rightarrow> 32 word list" where
  "merge_results check_magic bits num_threads =
     concat (map (\<lambda>i. snd (worker check_magic bits num_threads i)) [0..<nat (sint num_threads)])"

text \<open>
  \<^verbatim>\<open>find_valid_seeds\<close>. The three arrays have \<open>num_threads\<close> elements, which is
  undefined for a negative \<open>num_threads\<close>. With \<open>num_threads = 0\<close> no loop runs and
  the result is empty. \<^verbatim>\<open>ui::create_progress_bar\<close> is not part of utils.cc; it only
  reads the counters, and the model takes it to return.
\<close>

definition find_valid_seeds ::
  "(bool list \<Rightarrow> 32 word \<Rightarrow> bool) \<Rightarrow> bool list \<Rightarrow> 32 word \<Rightarrow> fault + 32 word list" where
  "find_valid_seeds check_magic bits num_threads =
     (if sint num_threads < 0 then Inl NegativeArraySize
      else Inr (merge_results check_magic bits num_threads))"

text \<open>
  The state after \<open>k\<close> passes through the loop body of \<^verbatim>\<open>crack_seeds\<close>, for the
  properties that hold at every point of the scan.
\<close>

definition crack_iter ::
  "(bool list \<Rightarrow> 32 word \<Rightarrow> bool) \<Rightarrow> bool list \<Rightarrow> 32 word \<Rightarrow> 32 word \<Rightarrow> 32 word list \<Rightarrow> nat
     \<Rightarrow> crack_state" where
  "crack_iter check_magic bits start_seed progress vs k =
     (crack_body check_magic bits start_seed ^^ k)
       \<lparr>seed = start_seed, progress_counter = progress, valid_seeds = vs\<rparr>"

section \<open>The bit-shift realigner\<close>

text \<open>
  \<^verbatim>\<open>for (int i=0; i<num_bits-1; i++)\<close>: \<open>num_bits\<close> is a \<^verbatim>\<open>uint64_t\<close>, so
  \<open>num_bits - 1\<close> wraps at 0 and the comparison is unsigned; \<open>i\<close> is an \<^verbatim>\<open>int\<close>, so
  the body cannot compute \<open>i + 1\<close> once \<open>i\<close> is \<^verbatim>\<open>INT_MAX\<close>. The body reads
  \<^verbatim>\<open>bytes[(i+1)/8]\<close> and updates \<^verbatim>\<open>bytes[i/8]\<close>.
\<close>

function shift_loop :: "64 word \<Rightarrow> nat \<Rightarrow> 8 word list \<Rightarrow> fault + 8 word list" where
  "shift_loop num_bits i bytes =
     (if i < unat (num_bits - 1) then
        if 2147483647 \<le> i then Inl SignedOverflow
        else if length bytes \<le> (i + 1) div 8 then Inl OutOfBounds
        else
          let next_bit = drop_bit ((i + 1) mod 8) (bytes ! ((i + 1) div 8)) AND 1;
              b = bytes ! (i div 8)
          in shift_loop num_bits (i + 1)
               (bytes[i div 8 := b XOR ((- next_bit XOR b) AND push_bit (i mod 8) 1)])
      else Inr bytes)"
  by pat_completeness auto
termination
  by (relation "measure (\<lambda>(num_bits, i, bytes). unat (num_bits - 1) - i)") auto

declare shift_loop.simps [simp del]

definition shift_bits :: "8 word list \<Rightarrow> 64 word \<Rightarrow> fault + 8 word list" where
  "shift_bits bytes num_bits = shift_loop num_bits 0 bytes"

text \<open>Bit \<open>i\<close> of a buffer: bit \<open>i mod 8\<close> of byte \<open>i div 8\<close>, as \<^verbatim>\<open>shift_bits\<close> counts.\<close>

definition buffer_bit :: "8 word list \<Rightarrow> nat \<Rightarrow> bool" where
  "buffer_bit bytes i = bit (bytes ! (i div 8)) (i mod 8)"

section \<open>The payload decoder and the candidate filter\<close>

text \<open>
  Modelled from the spec: the declaration of \<^verbatim>\<open>ExtractedData\<close> (a header that is not
  among the sources). The fields are those that utils.cc reads and writes, with the
  widths of the data model: version (1 bit), encryption algorithm (5 bits) and mode
  (3 bits) in a byte each, the payload size a 32-bit unsigned integer.
\<close>

record file_info =
  magic_bytes :: "32 word"
  version :: "8 word"
  enc_algo :: "8 word"
  enc_mode :: "8 word"
  payload_size :: "32 word"

record file_data =
  is_compressed :: "8 word"
  uncompressed_size :: "32 word"
  has_checksum :: bool
  checksum :: "32 word"
  filename :: "8 word list"
  file_contents :: "8 word list"

record extracted_data =
  info :: file_info
  is_encrypted :: bool
  encrypted_payload :: "8 word list"
  data :: file_data

definition new_extracted_data :: extracted_data where
  "new_extracted_data =
     \<lparr>info = \<lparr>magic_bytes = 0, version = 0, enc_algo = 0, enc_mode = 0, payload_size = 0\<rparr>,
      is_encrypted = False, encrypted_payload = [],
      data = \<lparr>is_compressed = 0, uncompressed_size = 0, has_checksum = False, checksum = 0,
              filename = [], file_contents = []\<rparr>\<rparr>"

text \<open>
  What utils.cc calls and does not define, as parameters. \<open>'e\<close> is the state of an
  \<^verbatim>\<open>Extractor\<close>.
  \<^item> \<open>new_session bits seed\<close> is \<^verbatim>\<open>Extractor e(bits, seed, false)\<close>.
  \<^item> \<open>get_data e n\<close> is \<^verbatim>\<open>e.get_data(dst, n)\<close>: the bytes it writes from \<open>dst\<close> on,
    and the session after the call.
  \<^item> \<open>uncompress dest destLen source\<close> is zlib's
    \<^verbatim>\<open>uncompress(dest, &destLen, source, sourceLen)\<close>: the status it returns, the
    destination buffer and \<open>destLen\<close> after the call.
  \<^item> \<open>uninit i\<close> is the indeterminate byte at index \<open>i\<close> of an array that
    \<^verbatim>\<open>new uint8_t[n]\<close> has just allocated.
\<close>

record 'e collab =
  new_session :: "bool list \<Rightarrow> 32 word \<Rightarrow> 'e"
  get_data :: "'e \<Rightarrow> nat \<Rightarrow> 8 word list \<times> 'e"
  uncompress :: "8 word list \<Rightarrow> 64 word \<Rightarrow> 8 word list \<Rightarrow> int \<times> 8 word list \<times> 64 word"
  uninit :: "nat \<Rightarrow> 8 word"

definition new_array :: "'e collab \<Rightarrow> nat \<Rightarrow> 8 word list" where
  "new_array c n = map (uninit c) [0..<n]"

text \<open>The little-endian value of a byte sequence, cut to the width of the result.\<close>

definition le_word :: "8 word list \<Rightarrow> 'a::len word" where
  "le_word bs = word_of_nat (foldr (\<lambda>b v. unat b + 256 * v) bs 0)"

text \<open>\<^verbatim>\<open>e.get_data(&field, n)\<close> for an integer field: the field holds the bytes delivered.\<close>

definition read_field :: "'e collab \<Rightarrow> 'e \<Rightarrow> nat \<Rightarrow> 'a::len word \<times> 'e" where
  "read_field c e n = (let (bs, e') = get_data c e n in (le_word bs, e'))"

text \<open>
  \<^verbatim>\<open>e.get_data(buf, n)\<close> for an array \<open>buf\<close>: the bytes delivered replace the front of
  the array; more bytes than the array has is a write outside it.
\<close>

definition read_into :: "'e collab \<Rightarrow> 'e \<Rightarrow> 8 word list \<Rightarrow> nat \<Rightarrow> fault + 8 word list \<times> 'e" where
  "read_into c e buf n =
     (let (bs, e') = get_data c e n
      in if length bs \<le> length buf then Inr (bs @ drop (length bs) buf, e') else Inl OutOfBounds)"

text \<open>\<^verbatim>\<open>strlen(buf + off)\<close>: defined when a null byte follows inside the buffer.\<close>

definition c_strlen :: "8 word list \<Rightarrow> nat \<Rightarrow> fault + nat" where
  "c_strlen buf off =
     (if off \<le> length buf \<and> 0 \<in> set (drop off buf)
      then Inr (length (takeWhile (\<lambda>b. b \<noteq> 0) (drop off buf)))
      else Inl OutOfBounds)"

text \<open>
  \<^verbatim>\<open>extract_payload\<close>, lines 128 to 157: the compression flag and the payload buffer.
  The result is the record, the buffer \<^verbatim>\<open>payload\<close> and \<^verbatim>\<open>payload_size_bytes\<close>.
  The status that \<^verbatim>\<open>uncompress\<close> returns is dropped, as in the source.
\<close>

definition read_payload ::
  "'e collab \<Rightarrow> 'e \<Rightarrow> extracted_data \<Rightarrow> fault + extracted_data \<times> 8 word list \<times> 64 word" where
  "read_payload c e d =
     (let (ic, e1) = read_field c e 1;
          d1 = d\<lparr>data := (data d)\<lparr>is_compressed := ic\<rparr>\<rparr>
      in if ic \<noteq> 0 then
           let num_compressed_bytes = bits_to_bytes (payload_size (info d) - 1);
               (us, e2) = read_field c e1 32;
               d2 = d1\<lparr>data := (data d1)\<lparr>uncompressed_size := us\<rparr>\<rparr>;
               payload_size_bytes = (ucast (bits_to_bytes us) :: 64 word)
           in case read_into c e2 (new_array c (unat num_compressed_bytes))
                     (unat (payload_size (info d) - 1)) of
                Inl f \<Rightarrow> Inl f
              | Inr (compressed_payload, e3) \<Rightarrow>
                  let payload = new_array c (unat payload_size_bytes);
                      (status, payload', payload_size_bytes') =
                         uncompress c payload payload_size_bytes compressed_payload
                  in if length payload' \<noteq> length payload then Inl OutOfBounds
                     else Inr (d2, payload', payload_size_bytes')
         else
           let payload_size_bytes = (ucast (bits_to_bytes (payload_size (info d) - 1)) :: 64 word)
           in case read_into c e1 (new_array c (unat payload_size_bytes))
                     (unat (payload_size (info d) - 1)) of
                Inl f \<Rightarrow> Inl f
              | Inr (payload, e2) \<Rightarrow> Inr (d1, payload, payload_size_bytes))"

text \<open>
  \<^verbatim>\<open>extract_payload\<close>, lines 160 to 186: the checksum flag is read from
  \<^verbatim>\<open>payload[0]\<close>, then the buffer is shifted, then checksum, file name and contents
  are taken from the shifted buffer. \<^verbatim>\<open>((uint32_t*)payload)[0]\<close> is read little-endian.
\<close>

definition parse_payload :: "extracted_data \<Rightarrow> 8 word list \<Rightarrow> 64 word \<Rightarrow> fault + extracted_data" where
  "parse_payload d payload payload_size_bytes =
     (if length payload = 0 then Inl OutOfBounds
      else
        let hc = (payload ! 0 AND 1 \<noteq> 0)
        in case shift_bits payload (payload_size_bytes * 8) of
             Inl f \<Rightarrow> Inl f
           | Inr shifted \<Rightarrow>
               if hc \<and> length shifted < 4 then Inl OutOfBounds
               else
                 let cs = (if hc then le_word (take 4 shifted) else checksum (data d));
                     off = (if hc then 4 else 0)
                 in case c_strlen shifted off of
                      Inl f \<Rightarrow> Inl f
                    | Inr len \<Rightarrow>
                        let filename_length = (word_of_nat len :: 32 word);
                            contents = off + unat filename_length + 1;
                            content_length =
                              (word_of_int (int (unat (bits_to_bytes (payload_size (info d) - 2)))
                                 - int contents) :: 32 word)
                        in if length shifted < contents + unat content_length then Inl OutOfBounds
                           else Inr (d\<lparr>data := (data d)
                                  \<lparr>has_checksum := hc, checksum := cs,
                                   filename := take len (drop off shifted),
                                   file_contents := take (unat content_length) (drop contents shifted)\<rparr>\<rparr>))"

definition extract_payload :: "'e collab \<Rightarrow> 'e \<Rightarrow> extracted_data \<Rightarrow> fault + extracted_data" where
  "extract_payload c e d =
     (if is_encrypted d then
        let num_enc_bytes = bits_to_bytes (payload_size (info d))
        in case read_into c e (replicate (unat num_enc_bytes) 0) (unat (payload_size (info d))) of
             Inl f \<Rightarrow> Inl f
           | Inr (buf, e') \<Rightarrow> Inr (d\<lparr>encrypted_payload := buf\<rparr>)
      else
        case read_payload c e d of
          Inl f \<Rightarrow> Inl f
        | Inr (d', payload, payload_size_bytes) \<Rightarrow> parse_payload d' payload payload_size_bytes)"

text \<open>
  \<^verbatim>\<open>extract_files\<close>. \<^verbatim>\<open>max_payload_size\<close> is computed in \<^verbatim>\<open>uint32_t\<close>: the cast cuts
  \<open>bits.size() / 3\<close> to 32 bits and the subtraction wraps.
\<close>

definition max_payload_size :: "bool list \<Rightarrow> 32 word" where
  "max_payload_size bits = word_of_nat (length bits div 3) - 65"

text \<open>The five \<^verbatim>\<open>get_data\<close> calls that read the metadata, and \<^verbatim>\<open>is_encrypted\<close>.\<close>

definition read_info :: "'e collab \<Rightarrow> bool list \<Rightarrow> 32 word \<Rightarrow> extracted_data \<times> 'e" where
  "read_info c bits candidate =
     (let e = new_session c bits candidate;
          (mb, e1) = read_field c e 24;
          (ver, e2) = read_field c e1 1;
          (alg, e3) = read_field c e2 5;
          (mode, e4) = read_field c e3 3;
          (ps, e5) = read_field c e4 32
      in (new_extracted_data
            \<lparr>info := \<lparr>magic_bytes = mb, version = ver, enc_algo = alg, enc_mode = mode,
                      payload_size = ps\<rparr>,
             is_encrypted := (alg \<noteq> 0)\<rparr>, e5))"

text \<open>The condition of the \<^verbatim>\<open>if\<close> at line 220.\<close>

definition discarded :: "bool list \<Rightarrow> extracted_data \<Rightarrow> bool" where
  "discarded bits d \<longleftrightarrow>
     payload_size (info d) > max_payload_size bits \<or> enc_algo (info d) > 22 \<or> version (info d) \<noteq> 0"

text \<open>
  One pass through the loop body: \<open>None\<close> is the \<^verbatim>\<open>continue\<close>, \<open>Some d\<close> the record
  that \<^verbatim>\<open>push_back\<close> appends.
\<close>

definition extract_one :: "'e collab \<Rightarrow> bool list \<Rightarrow> 32 word \<Rightarrow> fault + extracted_data option" where
  "extract_one c bits candidate =
     (let (d, e) = read_info c bits candidate
      in if discarded bits d then Inr None
         else case extract_payload c e d of Inl f \<Rightarrow> Inl f | Inr d' \<Rightarrow> Inr (Some d'))"

fun extract_loop ::
  "'e collab \<Rightarrow> bool list \<Rightarrow> 32 word list \<Rightarrow> extracted_data list \<Rightarrow> fault + extracted_data list" where
  "extract_loop c bits [] found_data = Inr found_data"
| "extract_loop c bits (candidate # seeds) found_data =
     (case extract_one c bits candidate of
        Inl f \<Rightarrow> Inl f
      | Inr None \<Rightarrow> extract_loop c bits seeds found_data
      | Inr (Some d) \<Rightarrow> extract_loop c bits seeds (found_data @ [d]))"

text \<open>
  \<^verbatim>\<open>for (int i=0, s=(int)seeds.size(); i<s; i++)\<close>: the loop runs over the first \<open>s\<close>
  seeds, \<open>s\<close> the size cut to an \<^verbatim>\<open>int\<close>.
\<close>

definition extract_files :: "'e collab \<Rightarrow> bool list \<Rightarrow> 32 word list \<Rightarrow> fault + extracted_data list" where
  "extract_files c bits seeds =
     extract_loop c bits (take (nat (sint (word_of_nat (length seeds) :: 32 word))) seeds) []"

section \<open>A bit-stream extractor, for running the decoder on concrete input\<close>

text \<open>
  Modelled from the spec: the bit-extraction session (class \<^verbatim>\<open>Extractor\<close>, which is not
  among the sources). Its \<^verbatim>\<open>getData\<close> "sequentially delivers the next numBits
  seed-derived bits into the buffer". A session is the sequence of derived bits not yet
  delivered. The bits fill each byte from bit 0 upwards, the order in which
  \<^verbatim>\<open>shift_bits\<close> and the test \<^verbatim>\<open>payload[0] & 1\<close> read a buffer. How the bits are
  derived from the carrier and the seed stays a parameter.
\<close>

definition byte_of_bits :: "bool list \<Rightarrow> 8 word" where
  "byte_of_bits bs = foldr (\<lambda>b v. of_bool b + 2 * v) bs 0"

fun pack_bits :: "bool list \<Rightarrow> 8 word list" where
  "pack_bits bs = (if bs = [] then [] else byte_of_bits (take 8 bs) # pack_bits (drop 8 bs))"

declare pack_bits.simps [simp del]

definition stream_get_data :: "bool list \<Rightarrow> nat \<Rightarrow> 8 word list \<times> bool list" where
  "stream_get_data e n = (pack_bits (take n e), drop n e)"

definition stream_collab ::
  "(bool list \<Rightarrow> 32 word \<Rightarrow> bool list) \<Rightarrow>
   (8 word list \<Rightarrow> 64 word \<Rightarrow> 8 word list \<Rightarrow> int \<times> 8 word list \<times> 64 word) \<Rightarrow> bool list collab" where
  "stream_collab derive unc =
     \<lparr>new_session = derive, get_data = stream_get_data, uncompress = unc, uninit = (\<lambda>i. 0)\<rparr>"

text \<open>
  What zlib's \<^verbatim>\<open>uncompress\<close> does with a source that is no zlib stream, such as the
  two bytes 85, 1: it returns \<^verbatim>\<open>Z_DATA_ERROR\<close> (-3), writes nothing to the destination
  buffer, and sets \<open>destLen\<close> to the number of bytes produced, 0.
\<close>

definition failing_uncompress ::
  "8 word list \<Rightarrow> 64 word \<Rightarrow> 8 word list \<Rightarrow> int \<times> 8 word list \<times> 64 word" where
  "failing_uncompress dest dest_len source = (- 3, dest, 0)"

text \<open>
  Two sources that begin as a zlib stream of the three bytes 194, 0, 80: the header
  120, 1 and one stored block (final, length 3 and its complement, the three bytes).
  \<open>zlib_stored\<close> ends with the Adler-32 checksum of the data and is a valid stream;
  in \<open>zlib_damaged\<close> the last byte of the checksum is 0 instead of 19.
\<close>

definition zlib_stored :: "8 word list" where
  "zlib_stored = [120, 1, 1, 3, 0, 252, 255, 194, 0, 80, 2, 153, 1, 19]"

definition zlib_damaged :: "8 word list" where
  "zlib_damaged = [120, 1, 1, 3, 0, 252, 255, 194, 0, 80, 2, 153, 1, 0]"

text \<open>
  What zlib's \<^verbatim>\<open>uncompress\<close> does with these two sources and a destination of at
  least three bytes: it writes the three bytes to the front of the destination, leaves
  the rest of it as it was, and sets \<open>destLen\<close> to 3. For \<open>zlib_stored\<close> it returns
  \<^verbatim>\<open>Z_OK\<close> (0); for \<open>zlib_damaged\<close> it finds the checksum wrong after the data is
  written and returns \<^verbatim>\<open>Z_DATA_ERROR\<close> (-3). The examples give it no other source
  with a valid header; any other source is answered as by \<open>failing_uncompress\<close>.
\<close>

definition stored_uncompress ::
  "8 word list \<Rightarrow> 64 word \<Rightarrow> 8 word list \<Rightarrow> int \<times> 8 word list \<times> 64 word" where
  "stored_uncompress dest dest_len source =
     (if (source = zlib_stored \<or> source = zlib_damaged) \<and> 3 \<le> length dest \<and> 3 \<le> dest_len
      then (if source = zlib_stored then 0 else - 3, [194, 0, 80] @ drop 3 dest, 3)
      else failing_uncompress dest dest_len source)"

text \<open>The bit-stream extractor with 170 for every indeterminate byte of a new array.\<close>

definition junk_collab ::
  "(bool list \<Rightarrow> 32 word \<Rightarrow> bool list) \<Rightarrow>
   (8 word list \<Rightarrow> 64 word \<Rightarrow> 8 word list \<Rightarrow> int \<times> 8 word list \<times> 64 word) \<Rightarrow> bool list collab" where
  "junk_collab derive unc = (stream_collab derive unc)\<lparr>uninit := (\<lambda>i. 170)\<rparr>"

text \<open>
  Derived bit sequences for the examples below. The 65 bits of the metadata come first:
  24 magic bits, the version bit 0, the five bits of the encryption algorithm, three
  mode bits 0, and the payload size, of which \<open>size_bits\<close> are the low eight bits.
\<close>

definition header_stream :: "bool list \<Rightarrow> bool list \<Rightarrow> bool list \<Rightarrow> bool list" where
  "header_stream algo_bits size_bits rest =
     replicate 24 False @ [False] @ algo_bits @ replicate 3 False
       @ size_bits @ replicate 24 False @ rest"

text \<open>Algorithm 1 (encrypted), payload size 8, and one payload byte, 165.\<close>

definition encrypted_stream :: "bool list" where
  "encrypted_stream =
     header_stream [True, False, False, False, False]
       [False, False, False, True, False, False, False, False]
       [True, False, True, False, False, True, False, True]"

text \<open>
  Algorithm 0 (plaintext), payload size 26: the compression flag 0, then 25 bits, which
  are the checksum flag 0 followed by the bytes 97 (the file name "a"), 0 and 104 (the
  contents).
\<close>

definition plain_stream :: "bool list" where
  "plain_stream =
     header_stream [False, False, False, False, False]
       [False, True, False, True, True, False, False, False]
       ([False] @
        [False, True, False, False, False, False, True, True,
         False, False, False, False, False, False, False, False,
         False, False, False, False, True, False, True, True,
         False])"


text \<open>
  Algorithm 0, payload size 10: the compression flag 1, the uncompressed size 16, and
  9 bits of compressed data.
\<close>

definition compressed_stream :: "bool list" where
  "compressed_stream =
     header_stream [False, False, False, False, False]
       [False, True, False, True, False, False, False, False]
       ([True] @
        ([False, False, False, False, True, False, False, False] @ replicate 24 False) @
        [True, False, True, False, True, False, True, False, True])"

text \<open>
  The compression flag 1, the uncompressed size 128 (16 bytes), and the 112 bits of
  \<open>zlib_stored\<close>, which holds 3 bytes; and the same with the bits of \<open>zlib_damaged\<close>.
\<close>

definition mismatch_session :: "bool list" where
  "mismatch_session =
     [True] @
     ([False, False, False, False, False, False, False, True] @ replicate 24 False) @
     [False, False, False, True, True, True, True, False,
      True, False, False, False, False, False, False, False,
      True, False, False, False, False, False, False, False,
      True, True, False, False, False, False, False, False,
      False, False, False, False, False, False, False, False,
      False, False, True, True, True, True, True, True,
      True, True, True, True, True, True, True, True,
      False, True, False, False, False, False, True, True,
      False, False, False, False, False, False, False, False,
      False, False, False, False, True, False, True, False,
      False, True, False, False, False, False, False, False,
      True, False, False, True, True, False, False, True,
      True, False, False, False, False, False, False, False,
      True, True, False, False, True, False, False, False]"

definition damaged_session :: "bool list" where
  "damaged_session =
     [True] @
     ([False, False, False, False, False, False, False, True] @ replicate 24 False) @
     [False, False, False, True, True, True, True, False,
      True, False, False, False, False, False, False, False,
      True, False, False, False, False, False, False, False,
      True, True, False, False, False, False, False, False,
      False, False, False, False, False, False, False, False,
      False, False, True, True, True, True, True, True,
      True, True, True, True, True, True, True, True,
      False, True, False, False, False, False, True, True,
      False, False, False, False, False, False, False, False,
      False, False, False, False, True, False, True, False,
      False, True, False, False, False, False, False, False,
      True, False, False, True, True, False, False, True,
      True, False, False, False, False, False, False, False,
      False, False, False, False, False, False, False, False]"

text \<open>Algorithm 0, payload size 113, then one of these two.\<close>

definition mismatch_stream :: "bool list" where
  "mismatch_stream =
     header_stream [False, False, False, False, False]
       [True, False, False, False, True, True, True, False] mismatch_session"

definition damaged_stream :: "bool list" where
  "damaged_stream =
     header_stream [False, False, False, False, False]
       [True, False, False, False, True, True, True, False] damaged_session"

text \<open>
  A derivation that gives candidate 1 the stream with the valid zlib data, candidate 2
  the one with the damaged zlib data, and every other candidate \<open>compressed_stream\<close>,
  whose compressed data, the bytes 85 and 1, is no zlib stream.
\<close>

definition example_derive :: "bool list \<Rightarrow> 32 word \<Rightarrow> bool list" where
  "example_derive bits candidate =
     (if candidate = 1 then mismatch_stream
      else if candidate = 2 then damaged_stream
      else compressed_stream)"

text \<open>
  The metadata records that \<^verbatim>\<open>extract_files\<close> reads from these streams, the sessions
  after the metadata, and the records that it returns.
\<close>

definition plain_info :: extracted_data where
  "plain_info =
     \<lparr>info = \<lparr>magic_bytes = 0, version = 0, enc_algo = 0, enc_mode = 0, payload_size = 26\<rparr>,
      is_encrypted = False, encrypted_payload = [],
      data = \<lparr>is_compressed = 0, uncompressed_size = 0, has_checksum = False, checksum = 0,
              filename = [], file_contents = []\<rparr>\<rparr>"

definition plain_session :: "bool list" where
  "plain_session =
     [False] @
     [False, True, False, False, False, False, True, True,
      False, False, False, False, False, False, False, False,
      False, False, False, False, True, False, True, True,
      False]"

definition plain_record :: extracted_data where
  "plain_record = plain_info\<lparr>data := (data plain_info)\<lparr>filename := [97], file_contents := [104]\<rparr>\<rparr>"


definition compressed_info :: extracted_data where
  "compressed_info =
     \<lparr>info = \<lparr>magic_bytes = 0, version = 0, enc_algo = 0, enc_mode = 0, payload_size = 10\<rparr>,
      is_encrypted = False, encrypted_payload = [],
      data = \<lparr>is_compressed = 0, uncompressed_size = 0, has_checksum = False, checksum = 0,
              filename = [], file_contents = []\<rparr>\<rparr>"

definition mismatch_info :: extracted_data where
  "mismatch_info =
     \<lparr>info = \<lparr>magic_bytes = 0, version = 0, enc_algo = 0, enc_mode = 0, payload_size = 113\<rparr>,
      is_encrypted = False, encrypted_payload = [],
      data = \<lparr>is_compressed = 0, uncompressed_size = 0, has_checksum = False, checksum = 0,
              filename = [], file_contents = []\<rparr>\<rparr>"

definition mismatch_record :: extracted_data where
  "mismatch_record =
     mismatch_info\<lparr>data := (data mismatch_info)
       \<lparr>is_compressed := 1, uncompressed_size := 128, filename := [97],
        file_contents := [40, 170, 170, 170, 170, 170, 170, 170, 170, 170, 170, 170]\<rparr>\<rparr>"

definition compressed_session :: "bool list" where
  "compressed_session =
     [True] @ ([False, False, False, False, True, False, False, False] @ replicate 24 False) @
     [True, False, True, False, True, False, True, False, True]"

section \<open>Rounding errors and the partition of the seed space\<close>

lemma round_even_err: "\<bar>of_int (round_even q) - q\<bar> \<le> 1 / 2"
proof -
  have "of_int \<lfloor>q\<rfloor> \<le> q" "q < of_int \<lfloor>q\<rfloor> + 1" by linarith+
  then show ?thesis
    by (auto simp: round_even_def Let_def)
qed

lemma floor_log2_bounds:
  assumes "1 \<le> x"
  shows "0 \<le> floor_log2 x" and "2 powi floor_log2 x \<le> x" and "x < 2 powi (floor_log2 x + 1)"
proof -
  define n where "n = nat \<lfloor>x\<rfloor>"
  have n: "0 < n" using assms by (simp add: n_def)
  have nx: "of_nat n \<le> x" "x < of_nat n + 1"
    using assms by (simp_all add: n_def) linarith+
  from floorlog_bounds [of n 2] n
  have lo: "2 ^ (floorlog 2 n - 1) \<le> n" and hi: "n < 2 ^ floorlog 2 n" by simp_all
  have pos: "0 < floorlog 2 n"
    using n hi by (cases "floorlog 2 n") simp_all
  have e: "floor_log2 x = int (floorlog 2 n) - 1"
    using assms by (simp add: floor_log2_def n_def)
  show "0 \<le> floor_log2 x" using pos by (simp add: e)
  have e': "floor_log2 x = int (floorlog 2 n - 1)" using pos by (simp add: e)
  have "(2::rat) ^ (floorlog 2 n - 1) \<le> of_nat n"
    using lo by (metis of_nat_le_iff of_nat_numeral of_nat_power)
  also have "\<dots> \<le> x" by (rule nx)
  finally show "2 powi floor_log2 x \<le> x"
    by (simp add: e')
  have "n + 1 \<le> 2 ^ floorlog 2 n" using hi by simp
  then have "(of_nat (n + 1) :: rat) \<le> of_nat (2 ^ floorlog 2 n)"
    by (rule of_nat_mono)
  then have "of_nat n + 1 \<le> (2::rat) ^ floorlog 2 n" by simp
  moreover have "floor_log2 x + 1 = int (floorlog 2 n)" by (simp add: e)
  ultimately have "of_nat n + 1 \<le> (2::rat) powi (floor_log2 x + 1)"
    by simp
  with nx(2) show "x < 2 powi (floor_log2 x + 1)"
    by (rule less_le_trans)
qed


lemma to_double_err:
  assumes "1 \<le> x"
  shows "\<bar>to_double x - x\<bar> \<le> 2 powi floor_log2 x / 2 ^ 53"
proof -
  define e where "e = floor_log2 x"
  define u :: rat where "u = 2 powi (e - 52)"
  have e0: "0 \<le> e" using floor_log2_bounds(1) [OF assms] by (simp add: e_def)
  have u0: "0 < u" by (simp add: u_def)
  have u2: "u = 2 powi e / 2 ^ 52"
    by (simp add: u_def power_int_diff)
  have td: "to_double x = of_int (round_even (x / u)) * u"
    using assms e0 by (simp add: to_double_def fp_round_def Let_def e_def [symmetric] u_def max_def)
  have "to_double x - x = (of_int (round_even (x / u)) - x / u) * u"
    using u0 by (simp add: td algebra_simps)
  then have "\<bar>to_double x - x\<bar> = \<bar>of_int (round_even (x / u)) - x / u\<bar> * u"
    using u0 by (simp add: abs_mult)
  also have "\<dots> \<le> (1 / 2) * u"
    using u0 round_even_err [of "x / u"] by (intro mult_right_mono) simp_all
  also have "\<dots> = 2 powi e / 2 ^ 53"
    by (simp add: u2)
  finally show ?thesis by (simp add: e_def)
qed

lemma to_double_rel_err:
  assumes "1 \<le> x"
  shows "\<bar>to_double x - x\<bar> \<le> x / 2 ^ 53"
proof -
  have "2 powi floor_log2 x / 2 ^ 53 \<le> x / 2 ^ 53"
    using floor_log2_bounds(2) [OF assms] by (simp add: divide_right_mono)
  with to_double_err [OF assms] show ?thesis by linarith
qed

lemma to_double_abs_err:
  assumes "1 \<le> x" "x < 2 ^ 32"
  shows "\<bar>to_double x - x\<bar> \<le> 1 / 2 ^ 22"
proof -
  have "(2::rat) powi floor_log2 x < 2 powi 32"
    using floor_log2_bounds(2) [OF assms(1)] assms(2) by simp
  then have "floor_log2 x < 32"
    using power_int_increasing [of 32 "floor_log2 x" "2::rat"] by (cases "floor_log2 x < 32") simp_all
  then have "floor_log2 x \<le> 31" by simp
  then have "(2::rat) powi floor_log2 x \<le> 2 powi 31"
    by (intro power_int_increasing) simp_all
  then have "(2::rat) powi floor_log2 x / 2 ^ 53 \<le> 2 ^ 31 / 2 ^ 53"
    by (simp add: divide_right_mono)
  also have "\<dots> = 1 / 2 ^ 22" by simp
  finally show ?thesis using to_double_err [OF assms(1)] by linarith
qed


lemma sint32_range: "sint (n :: 32 word) \<le> 2147483647"
  using sint_lt [of n] by simp

lemma seeds_per_thread_bounds:
  assumes "0 < sint n"
  shows "3 / 2 \<le> seeds_per_thread n"
    and "of_int (sint n) * seeds_per_thread n \<le> 4294967295 + 1 / 2 ^ 21"
proof -
  define k :: rat where "k = of_int (sint n)"
  define q :: rat where "q = 4294967295 / k"
  have "1 \<le> sint n" using assms by simp
  then have "(of_int 1 :: rat) \<le> of_int (sint n)" by (simp only: of_int_le_iff)
  then have k1: "1 \<le> k" by (simp only: k_def of_int_1)
  have "(of_int (sint n) :: rat) \<le> of_int 2147483647"
    using sint32_range [of n] by (simp only: of_int_le_iff)
  then have k2: "k \<le> 2147483647" by (simp only: k_def of_int_numeral)
  note k = k1 k2
  have q2: "2 \<le> q"
    using k by (simp add: q_def le_divide_eq)
  have qk: "q * k = 4294967295"
    using k by (simp add: q_def)
  have ql: "q \<le> 4294967295"
    using k by (simp add: q_def divide_le_eq) 
  have spt: "seeds_per_thread n = to_double q"
    by (simp only: seeds_per_thread_def q_def k_def)
  have err: "\<bar>to_double q - q\<bar> \<le> q / 2 ^ 53"
    using q2 by (intro to_double_rel_err) simp
  have "q / 2 ^ 53 \<le> 1 / 2"
    using ql by simp
  with err q2 show "3 / 2 \<le> seeds_per_thread n"
    unfolding spt by linarith
  have "to_double q \<le> q + q / 2 ^ 53"
    using err by linarith
  then have "k * to_double q \<le> k * (q + q / 2 ^ 53)"
    using k by (intro mult_left_mono) simp_all
  also have "\<dots> = q * k + (q * k) / 2 ^ 53"
    by (simp add: algebra_simps)
  also have "\<dots> = 4294967295 + 4294967295 / 2 ^ 53"
    by (simp only: qk)
  also have "\<dots> \<le> 4294967295 + 1 / 2 ^ 21"
    by simp
  finally show "of_int (sint n) * seeds_per_thread n \<le> 4294967295 + 1 / 2 ^ 21"
    by (simp only: spt k_def)
qed


lemma boundary_0: "boundary n 0 = 0"
  by (simp add: boundary_def to_double_def fp_round_def)

lemma boundary_near:
  assumes "0 < sint n" "1 \<le> i" "int i \<le> sint n"
  shows "\<bar>boundary n i - of_nat i * seeds_per_thread n\<bar> \<le> 1 / 2 ^ 22"
    and "of_nat i * seeds_per_thread n \<le> 4294967295 + 1 / 2 ^ 21"
proof -
  define t where "t = seeds_per_thread n"
  have t: "3 / 2 \<le> t" and nt: "of_int (sint n) * t \<le> 4294967295 + 1 / 2 ^ 21"
    using seeds_per_thread_bounds [OF assms(1)] by (simp_all only: t_def)
  have "(of_int (int i) :: rat) \<le> of_int (sint n)"
    using assms(3) by (simp only: of_int_le_iff)
  then have "(of_nat i :: rat) \<le> of_int (sint n)"
    by (simp only: of_int_of_nat_eq)
  then have "of_nat i * t \<le> of_int (sint n) * t"
    using t by (intro mult_right_mono) simp_all
  then have "of_nat i * t \<le> 4294967295 + 1 / 2 ^ 21"
    using nt by (rule order_trans)
  then show up: "of_nat i * seeds_per_thread n \<le> 4294967295 + 1 / 2 ^ 21"
    by (simp only: t_def)
  have "(1::rat) \<le> of_nat i" using assms(2) by simp
  then have "1 * t \<le> of_nat i * t"
    using t by (intro mult_right_mono) simp_all
  then have "t \<le> of_nat i * t" by (simp only: mult_1_left)
  then have lo: "1 \<le> of_nat i * t" using t by linarith
  have "of_nat i * t < 2 ^ 32"
    using up unfolding t_def by simp
  from to_double_abs_err [OF lo this]
  show "\<bar>boundary n i - of_nat i * seeds_per_thread n\<bar> \<le> 1 / 2 ^ 22"
    by (simp only: boundary_def t_def)
qed

lemma boundary_step:
  assumes "0 < sint n" "int i < sint n"
  shows "boundary n i + 1 \<le> boundary n (i + 1)"
proof -
  define t where "t = seeds_per_thread n"
  have t: "3 / 2 \<le> t"
    using seeds_per_thread_bounds(1) [OF assms(1)] by (simp only: t_def)
  have i1: "\<bar>boundary n (i + 1) - of_nat (i + 1) * t\<bar> \<le> 1 / 2 ^ 22"
    using boundary_near(1) [OF assms(1), of "i + 1"] assms(2) by (simp add: t_def)
  have split: "(of_nat (i + 1) :: rat) * t = of_nat i * t + t"
    by (simp add: algebra_simps)
  have lo1: "of_nat i * t + t - 1 / 2 ^ 22 \<le> boundary n (i + 1)"
    using i1 unfolding abs_le_iff split by linarith
  have c: "(1::rat) / 2 ^ 22 \<le> 1 / 8" by simp
  show ?thesis
  proof (cases "i = 0")
    case True
    have "boundary n i = 0" "(of_nat i :: rat) * t = 0"
      using True by (simp_all add: boundary_0)
    with lo1 t c show ?thesis by linarith
  next
    case False
    then have "\<bar>boundary n i - of_nat i * t\<bar> \<le> 1 / 2 ^ 22"
      using boundary_near(1) [OF assms(1), of i] assms(2) by (simp add: t_def)
    then have "boundary n i \<le> of_nat i * t + 1 / 2 ^ 22"
      unfolding abs_le_iff by linarith
    with lo1 t c show ?thesis by linarith
  qed
qed

lemma boundary_range:
  assumes "0 < sint n" "int i \<le> sint n"
  shows "0 \<le> boundary n i" and "boundary n i < 4294967296"
proof -
  have "0 \<le> boundary n i \<and> boundary n i < 4294967296"
  proof (cases "i = 0")
    case True
    then show ?thesis by (simp add: boundary_0)
  next
    case False
    then have i: "1 \<le> i" by simp
    have t: "3 / 2 \<le> seeds_per_thread n"
      using seeds_per_thread_bounds(1) [OF assms(1)] .
    have "(1::rat) \<le> of_nat i" using i by simp
    then have "1 * seeds_per_thread n \<le> of_nat i * seeds_per_thread n"
      using t by (intro mult_right_mono) simp_all
    then have lo: "seeds_per_thread n \<le> of_nat i * seeds_per_thread n"
      by (simp only: mult_1_left)
    have c: "(1::rat) / 2 ^ 22 \<le> 1 / 8" "(1::rat) / 2 ^ 21 \<le> 1 / 8" by simp_all
    show ?thesis
      using boundary_near [OF assms(1) i assms(2)] t lo c by linarith
  qed
  then show "0 \<le> boundary n i" and "boundary n i < 4294967296" by simp_all
qed

lemma unat_to_uint32_boundary:
  assumes "0 < sint n" "int i \<le> sint n"
  shows "int (unat (to_uint32 (boundary n i))) = \<lfloor>boundary n i\<rfloor>"
proof -
  have f: "0 \<le> \<lfloor>boundary n i\<rfloor>" "\<lfloor>boundary n i\<rfloor> < 4294967296"
    using boundary_range [OF assms] by (simp_all add: floor_less_iff)
  have "uint (word_of_int \<lfloor>boundary n i\<rfloor> :: 32 word) = \<lfloor>boundary n i\<rfloor>"
    using f by (simp add: uint_word_of_int)
  then show ?thesis
    using boundary_range(1) [OF assms] by (simp add: to_uint32_def)
qed

lemma worker_range_nonempty:
  assumes "0 < sint n" "i < nat (sint n)"
  shows "start_seed_of n i < end_seed_of n i"
proof -
  have i: "int i < sint n" "int i \<le> sint n" "int (i + 1) \<le> sint n"
    using assms by simp_all
  have "\<lfloor>boundary n i\<rfloor> + 1 \<le> \<lfloor>boundary n (i + 1)\<rfloor>"
    using boundary_step [OF assms(1) i(1)] by (simp add: le_floor_iff) linarith
  then have "unat (to_uint32 (boundary n i)) < unat (to_uint32 (boundary n (i + 1)))"
    using unat_to_uint32_boundary [OF assms(1) i(2)] unat_to_uint32_boundary [OF assms(1) i(3)]
    by linarith
  then show ?thesis
    by (simp add: start_seed_of_def end_seed_of_def word_less_nat_alt)
qed

lemma end_seed_is_next_start: "end_seed_of n i = start_seed_of n (i + 1)"
  by (simp add: start_seed_of_def end_seed_of_def)

section \<open>The loop of crack_seeds\<close>

lemma seed_crack_body [simp]: "seed (crack_body cm bits st s) = seed s + 1"
  by (simp add: crack_body_def)

lemma crack_loop_funpow:
  "crack_loop cm bits st en s = (crack_body cm bits st ^^ Suc (unat (en - seed s - 1))) s"
proof (induction "unat (en - seed s - 1)" arbitrary: s)
  case 0
  then have "en - seed s - 1 = 0" by (simp add: unat_eq_0)
  then have "seed s + 1 = en" by (simp add: algebra_simps)
  then show ?case
    using 0 by (subst crack_loop.simps) (simp add: Let_def)
next
  case (Suc k)
  define s' where "s' = crack_body cm bits st s"
  define a where "a = en - seed s - 1"
  have a: "unat a = Suc k" using Suc(2) by (simp add: a_def)
  then have nz: "a \<noteq> 0" by auto
  then have ne: "seed s' \<noteq> en" by (auto simp: a_def s'_def)
  have eq: "en - seed s' - 1 = a - 1" by (simp add: a_def s'_def)
  have "unat (a - 1) = unat a - 1" using nz by (rule unat_minus_one)
  then have k: "k = unat (en - seed s' - 1)" by (simp only: eq a)
  have "crack_loop cm bits st en s = crack_loop cm bits st en s'"
    using ne by (subst crack_loop.simps) (simp add: Let_def s'_def)
  also have "\<dots> = (crack_body cm bits st ^^ Suc k) s'"
    using Suc(1) [OF k] k by (simp only:)
  also have "\<dots> = (crack_body cm bits st ^^ Suc (Suc k)) s"
    by (simp only: s'_def funpow_Suc_right o_apply)
  finally show ?case by (simp only: Suc(2) [symmetric])
qed

lemma crack_loop_iterations:
  assumes "st \<noteq> en"
  shows "crack_loop cm bits st en \<lparr>seed = st, progress_counter = p, valid_seeds = vs\<rparr> =
         (crack_body cm bits st ^^ unat (en - st)) \<lparr>seed = st, progress_counter = p, valid_seeds = vs\<rparr>"
proof -
  have nz: "en - st \<noteq> 0" using assms by simp
  have "unat (en - st - 1) = unat (en - st) - 1" using nz by (rule unat_minus_one)
  moreover have "0 < unat (en - st)" using nz by (simp add: unat_gt_0)
  ultimately have "Suc (unat (en - st - 1)) = unat (en - st)" by simp
  then show ?thesis by (simp add: crack_loop_funpow)
qed

lemma Suc_div_million:
  "Suc k div 1000000 = (if k mod 1000000 = 999999 then Suc (k div 1000000) else k div 1000000)"
  by (simp add: div_Suc mod_Suc)

lemma crack_body_funpow:
  assumes "k \<le> 2 ^ 32"
  shows "(crack_body cm bits st ^^ k) \<lparr>seed = st, progress_counter = p, valid_seeds = vs\<rparr> =
         \<lparr>seed = st + of_nat k,
          progress_counter = p + of_nat (1000000 * (k div 1000000)),
          valid_seeds = vs @ filter (cm bits) (map (\<lambda>j. st + of_nat j) [0..<k])\<rparr>"
  using assms
proof (induction k)
  case 0
  then show ?case by simp
next
  case (Suc k)
  then have k: "k < 2 ^ 32" by simp
  have u: "unat (of_nat k :: 32 word) = k"
    using k by (simp add: unat_of_nat)
  have "unat ((of_nat k :: 32 word) mod 1000000) = k mod 1000000"
    by (simp add: unat_mod u)
  moreover have "unat (999999 :: 32 word) = 999999" by simp
  ultimately have "(of_nat k :: 32 word) mod 1000000 = 999999 \<longleftrightarrow> k mod 1000000 = 999999"
    by (simp only: word_unat_eq_iff)
  then show ?case
    using Suc k by (simp add: crack_body_def Suc_div_million algebra_simps)
qed

section \<open>The merged result\<close>

lemma crack_seeds_eq:
  assumes "st < en"
  shows "crack_seeds cm bits st en p vs =
         (en - st, vs @ filter (cm bits) (map (\<lambda>j. st + of_nat j) [0..<unat en - unat st]))"
proof -
  have ne: "st \<noteq> en" using assms by auto
  have le: "st \<le> en" using assms by simp
  have n: "unat (en - st) = unat en - unat st"
    using le by (rule unat_sub)
  have "unat (en - st) \<le> 2 ^ 32"
    using unsigned_less [of "en - st", where ?'a = nat] by simp
  then show ?thesis
    by (simp add: crack_seeds_def crack_loop_iterations [OF ne] crack_body_funpow n)
qed

lemma unat_seed_offset:
  assumes "unat st + j < 2 ^ 32"
  shows "unat (st + of_nat j :: 32 word) = unat st + j"
proof -
  have "unat (of_nat j :: 32 word) = j"
    using assms by (simp add: unat_of_nat)
  then show ?thesis
    using assms unat_add_lem [of st "of_nat j"] by simp
qed

lemma seed_range_sorted:
  assumes "unat st + k \<le> 2 ^ 32"
  shows "sorted_wrt (<) (map (\<lambda>j. st + of_nat j :: 32 word) [0..<k])"
proof -
  have "sorted_wrt (\<lambda>a b. (st + of_nat a :: 32 word) < st + of_nat b) [0..<k]"
  proof (rule sorted_wrt_mono_rel [of _ "(<)"])
    fix a b assume "a \<in> set [0..<k]" "b \<in> set [0..<k]" "a < b"
    then have "unat st + a < 2 ^ 32" "unat st + b < 2 ^ 32" using assms by simp_all
    then show "(st + of_nat a :: 32 word) < st + of_nat b"
      using \<open>a < b\<close> by (simp add: word_less_nat_alt unat_seed_offset)
  next
    show "sorted_wrt (<) [0..<k]" by simp
  qed
  then show ?thesis by (simp add: sorted_wrt_map)
qed

lemma seed_range_bounds:
  assumes "st < en" "x \<in> set (map (\<lambda>j. st + of_nat j :: 32 word) [0..<unat en - unat st])"
  shows "st \<le> x \<and> x < en"
proof -
  from assms(2) obtain j where j: "j < unat en - unat st" and x: "x = st + of_nat j" by auto
  have "unat en < 2 ^ 32" using unsigned_less [of en, where ?'a = nat] by simp
  then have "unat st + j < 2 ^ 32" using j by simp
  then have "unat x = unat st + j" by (simp add: x unat_seed_offset)
  then show ?thesis using j by (simp add: word_le_nat_alt word_less_nat_alt)
qed

lemma worker_seeds:
  assumes "0 < sint n" "i < nat (sint n)"
  shows "sorted_wrt (<) (snd (worker cm bits n i))"
    and "\<forall>x \<in> set (snd (worker cm bits n i)). start_seed_of n i \<le> x \<and> x < end_seed_of n i"
proof -
  let ?st = "start_seed_of n i" and ?en = "end_seed_of n i"
  have lt: "?st < ?en" using assms by (rule worker_range_nonempty)
  have w: "snd (worker cm bits n i) =
      filter (cm bits) (map (\<lambda>j. ?st + of_nat j) [0..<unat ?en - unat ?st])"
    by (simp add: worker_def crack_seeds_eq [OF lt])
  have "unat ?en < 2 ^ 32" using unsigned_less [of ?en, where ?'a = nat] by simp
  moreover have "unat ?st < unat ?en" using lt by (simp add: word_less_nat_alt)
  ultimately have "unat ?st + (unat ?en - unat ?st) \<le> 2 ^ 32" by simp
  then show "sorted_wrt (<) (snd (worker cm bits n i))"
    unfolding w by (intro sorted_wrt_filter seed_range_sorted)
  show "\<forall>x \<in> set (snd (worker cm bits n i)). ?st \<le> x \<and> x < ?en"
    unfolding w using seed_range_bounds [OF lt] by auto
qed

lemma start_seed_mono:
  assumes "0 < sint n" "i \<le> j" "j \<le> nat (sint n)"
  shows "start_seed_of n i \<le> start_seed_of n j"
  using assms(2,3)
proof (induction j)
  case 0
  then show ?case by simp
next
  case (Suc j)
  show ?case
  proof (cases "i = Suc j")
    case True
    then show ?thesis by simp
  next
    case False
    then have "start_seed_of n i \<le> start_seed_of n j" using Suc by simp
    also have "start_seed_of n j < end_seed_of n j"
      using Suc(3) assms(1) by (intro worker_range_nonempty) simp_all
    finally show ?thesis by (simp add: end_seed_is_next_start)
  qed
qed

lemma workers_sorted:
  assumes "0 < sint n" "m \<le> nat (sint n)"
  shows "sorted_wrt (<) (concat (map (\<lambda>i. snd (worker cm bits n i)) [0..<m])) \<and>
         (\<forall>x \<in> set (concat (map (\<lambda>i. snd (worker cm bits n i)) [0..<m])). x < start_seed_of n m)"
  using assms(2)
proof (induction m)
  case 0
  then show ?case by simp
next
  case (Suc m)
  then have IH: "sorted_wrt (<) (concat (map (\<lambda>i. snd (worker cm bits n i)) [0..<m]))"
    "\<forall>x \<in> set (concat (map (\<lambda>i. snd (worker cm bits n i)) [0..<m])). x < start_seed_of n m"
    by simp_all
  have m: "m < nat (sint n)" using Suc(2) by simp
  note w = worker_seeds [OF assms(1) m, of cm bits]
  have "sorted_wrt (<) (concat (map (\<lambda>i. snd (worker cm bits n i)) [0..<m]) @ snd (worker cm bits n m))"
    using IH w by (fastforce simp: sorted_wrt_append)
  moreover have "\<forall>x \<in> set (concat (map (\<lambda>i. snd (worker cm bits n i)) [0..<m]) @ snd (worker cm bits n m)).
      x < start_seed_of n (Suc m)"
  proof
    fix x assume "x \<in> set (concat (map (\<lambda>i. snd (worker cm bits n i)) [0..<m]) @ snd (worker cm bits n m))"
    then consider "x < start_seed_of n m" | "x < end_seed_of n m"
      using IH(2) w(2) by auto
    then show "x < start_seed_of n (Suc m)"
    proof cases
      case 1
      also have "start_seed_of n m < end_seed_of n m"
        using assms(1) m by (rule worker_range_nonempty)
      finally show ?thesis by (simp add: end_seed_is_next_start)
    next
      case 2
      then show ?thesis by (simp add: end_seed_is_next_start)
    qed
  qed
  ultimately show ?case by simp
qed

text \<open>
  Claim C2. For every number of workers \<open>num_threads \<ge> 1\<close> and every carrier, the seed
  list that \<^verbatim>\<open>find_valid_seeds\<close> returns, the results of the workers appended in the
  order of their index, is strictly ascending and so has no duplicates, though nothing
  sorts it.
\<close>

theorem find_valid_seeds_sorted:
  assumes "0 < sint num_threads"
  shows "\<exists>seeds. find_valid_seeds check_magic bits num_threads = Inr seeds \<and>
           sorted_wrt (<) seeds \<and> distinct seeds"
proof -
  have "sorted_wrt (<) (merge_results check_magic bits num_threads)"
    using workers_sorted [OF assms order_refl, of check_magic bits]
    by (simp add: merge_results_def)
  then show ?thesis
    using assms by (simp add: find_valid_seeds_def strict_sorted_iff)
qed

theorem find_valid_seeds_sorted_witness:
  "\<exists>seeds. find_valid_seeds (\<lambda>bits s. s = 5) [] 1 = Inr seeds \<and>
     sorted_wrt (<) seeds \<and> distinct seeds"
  by (rule find_valid_seeds_sorted) simp

lemmas fp_eval = to_float_def to_double_def fp_round_def floor_log2_def
  round_even_def compute_floorlog power_int_def power_one_over Let_def

lemma floor_rat_div_numeral:
  "\<lfloor>(numeral a :: rat) / numeral b\<rfloor> = numeral a div numeral b"
  using floor_divide_of_int_eq [of "numeral a" "numeral b", where ?'a = rat] by simp

lemma ceiling_rat_div_numeral:
  "\<lceil>(numeral a :: rat) / numeral b\<rceil> = - ((- numeral a) div numeral b)"
  using floor_divide_of_int_eq [of "- numeral a" "numeral b", where ?'a = rat]
  by (simp add: ceiling_def)

lemma floor_rat_one_div_numeral:
  "\<lfloor>(1 :: rat) / numeral b\<rfloor> = 1 div numeral b"
  using floor_divide_of_int_eq [of 1 "numeral b", where ?'a = rat] by simp

lemma ceiling_rat_one_div_numeral:
  "\<lceil>(1 :: rat) / numeral b\<rceil> = - ((- 1) div numeral b)"
  using floor_divide_of_int_eq [of "- 1" "numeral b", where ?'a = rat]
  by (simp add: ceiling_def)

lemma single_worker_range:
  "start_seed_of 1 0 = 0" "end_seed_of 1 0 = 4294967295"
  by (simp_all add: start_seed_of_def end_seed_of_def boundary_def seeds_per_thread_def
      to_uint32_def fp_eval floor_rat_div_numeral)

lemma last_seed_not_found:
  assumes "0 < sint n"
  shows "4294967295 \<notin> set (merge_results cm bits n)"
proof
  assume "4294967295 \<in> set (merge_results cm bits n)"
  then have "(4294967295 :: 32 word) < start_seed_of n (nat (sint n))"
    using workers_sorted [OF assms order_refl, of cm bits] by (auto simp: merge_results_def)
  then have "unat (4294967295 :: 32 word) < unat (start_seed_of n (nat (sint n)))"
    by (simp only: word_less_nat_alt)
  moreover have "unat (start_seed_of n (nat (sint n))) < 2 ^ 32"
    using unsigned_less [of "start_seed_of n (nat (sint n))", where ?'a = nat] by simp
  ultimately show False by simp
qed

text \<open>
  Claim C1. The claim is that the ranges of the workers cover every seed from 0 to
  \<open>2 ^ 32 - 1\<close>. The code divides \<^verbatim>\<open>UINT32_MAX\<close>, not \<open>2 ^ 32\<close>: with one worker the
  range is from 0 to 4294967295, the end excluded, so seed 4294967295 is in no range and
  is not returned even when every seed passes the magic check.
\<close>

theorem last_seed_never_tested:
  "start_seed_of 1 0 = 0 \<and> end_seed_of 1 0 = 4294967295 \<and>
   find_valid_seeds (\<lambda>bits s. True) [] 1 = Inr (merge_results (\<lambda>bits s. True) [] 1) \<and>
   4294967295 \<notin> set (merge_results (\<lambda>bits s. True) [] 1)"
  using last_seed_not_found [of 1 "\<lambda>bits s. True" "[]"]
  by (simp add: single_worker_range find_valid_seeds_def)

lemma progress_iter:
  assumes "k \<le> 2 ^ 32"
  shows "progress_counter (crack_iter cm bits st 0 vs k) = of_nat (1000000 * (k div 1000000))"
  using assms by (simp add: crack_iter_def crack_body_funpow)

lemma unat_progress_iter:
  assumes "k < 2 ^ 32"
  shows "unat (progress_counter (crack_iter cm bits st 0 vs k)) = 1000000 * (k div 1000000)"
proof -
  have "1000000 * (k div 1000000) \<le> k" by simp
  then have "1000000 * (k div 1000000) < 2 ^ 32" using assms by linarith
  then have "unat (of_nat (1000000 * (k div 1000000)) :: 32 word) = 1000000 * (k div 1000000)"
    by (simp only: unat_of_nat) simp
  then show ?thesis using assms by (simp only: progress_iter)
qed

text \<open>
  Claim C9. For every worker of \<^verbatim>\<open>find_valid_seeds\<close>: the scan is exactly as many
  passes through the loop body as the range has seeds; the progress counter after \<open>k\<close>
  passes is at most the counter after any later number \<open>k'\<close> of passes; at every such
  point it is at most the size of the range, \<open>end_seed - start_seed\<close>; and after the scan
  the counter is set to the size of the range.
\<close>

theorem worker_progress_counter:
  assumes "0 < sint num_threads" "i < nat (sint num_threads)"
    and "k \<le> k'" "k' \<le> unat (end_seed_of num_threads i - start_seed_of num_threads i)"
  shows "crack_loop check_magic bits (start_seed_of num_threads i) (end_seed_of num_threads i)
           (crack_iter check_magic bits (start_seed_of num_threads i) 0 [] 0) =
         crack_iter check_magic bits (start_seed_of num_threads i) 0 []
           (unat (end_seed_of num_threads i - start_seed_of num_threads i)) \<and>
         progress_counter (crack_iter check_magic bits (start_seed_of num_threads i) 0 [] k)
           \<le> progress_counter (crack_iter check_magic bits (start_seed_of num_threads i) 0 [] k') \<and>
         progress_counter (crack_iter check_magic bits (start_seed_of num_threads i) 0 [] k')
           \<le> end_seed_of num_threads i - start_seed_of num_threads i \<and>
         fst (worker check_magic bits num_threads i) =
           end_seed_of num_threads i - start_seed_of num_threads i"
proof -
  let ?st = "start_seed_of num_threads i" and ?en = "end_seed_of num_threads i"
  let ?N = "unat (?en - ?st)"
  have lt: "?st < ?en" using assms(1,2) by (rule worker_range_nonempty)
  then have ne: "?st \<noteq> ?en" by auto
  have N: "?N < 2 ^ 32" using unsigned_less [of "?en - ?st", where ?'a = nat] by simp
  have k: "k < 2 ^ 32" "k' < 2 ^ 32" using assms(3,4) N by linarith+
  have 1: "crack_loop check_magic bits ?st ?en (crack_iter check_magic bits ?st 0 [] 0) =
      crack_iter check_magic bits ?st 0 [] ?N"
    by (simp add: crack_iter_def crack_loop_iterations [OF ne])
  have "k div 1000000 \<le> k' div 1000000" using assms(3) by (rule div_le_mono)
  then have 2: "progress_counter (crack_iter check_magic bits ?st 0 [] k)
      \<le> progress_counter (crack_iter check_magic bits ?st 0 [] k')"
    using k by (simp add: word_le_nat_alt unat_progress_iter)
  have "1000000 * (k' div 1000000) \<le> k'" by simp
  then have 3: "progress_counter (crack_iter check_magic bits ?st 0 [] k') \<le> ?en - ?st"
    using k assms(4) by (simp add: word_le_nat_alt unat_progress_iter)
  have 4: "fst (worker check_magic bits num_threads i) = ?en - ?st"
    by (simp add: worker_def crack_seeds_def)
  show ?thesis using 1 2 3 4 by blast
qed

theorem worker_progress_counter_witness:
  "crack_loop (\<lambda>bits s. False) [] (start_seed_of 1 0) (end_seed_of 1 0)
     (crack_iter (\<lambda>bits s. False) [] (start_seed_of 1 0) 0 [] 0) =
   crack_iter (\<lambda>bits s. False) [] (start_seed_of 1 0) 0 []
     (unat (end_seed_of 1 0 - start_seed_of 1 0)) \<and>
   progress_counter (crack_iter (\<lambda>bits s. False) [] (start_seed_of 1 0) 0 [] 999999)
     \<le> progress_counter (crack_iter (\<lambda>bits s. False) [] (start_seed_of 1 0) 0 [] 1000000) \<and>
   progress_counter (crack_iter (\<lambda>bits s. False) [] (start_seed_of 1 0) 0 [] 1000000)
     \<le> end_seed_of 1 0 - start_seed_of 1 0 \<and>
   fst (worker (\<lambda>bits s. False) [] 1 0) = end_seed_of 1 0 - start_seed_of 1 0"
  by (rule worker_progress_counter) (simp_all add: single_worker_range)

section \<open>Bit-size arithmetic: the rounding of the cast\<close>

lemma bits_to_bytes_small:
  "bits_to_bytes 0 = 0" "bits_to_bytes 1 = 1" "bits_to_bytes 8 = 1" "bits_to_bytes 9 = 2"
  by (simp_all add: bits_to_bytes_def to_uint32_def fp_eval floor_rat_div_numeral
      ceiling_rat_div_numeral floor_rat_one_div_numeral ceiling_rat_one_div_numeral)

text \<open>
  Up to \<open>2 ^ 24\<close> the cast and the division are exact, and the function is the ceiling
  of \<open>n / 8\<close>.
\<close>

lemma floor_log2_bounds_small:
  assumes "0 < x" "x < 1"
  shows "2 powi floor_log2 x \<le> x" and "x < 2 powi (floor_log2 x + 1)"
proof -
  define c where "c = \<lceil>1 / x\<rceil>"
  define m where "m = nat (c - 1)"
  define L where "L = floorlog 2 m"
  have inv: "1 < 1 / x" using assms by simp
  then have c2: "2 \<le> c" unfolding c_def by linarith
  have m: "0 < m" "int m = c - 1" using c2 by (simp_all add: m_def)
  from floorlog_bounds [of m 2] m(1)
  have lo: "2 ^ (L - 1) \<le> m" and hi: "m < 2 ^ L" by (simp_all add: L_def)
  have Lpos: "0 < L" using m(1) hi by (cases L) simp_all
  have e: "floor_log2 x = - int L"
    using assms by (simp add: floor_log2_def L_def m_def c_def)
  have cle: "1 / x \<le> of_int c" and cgt: "of_int c - 1 < 1 / x"
    unfolding c_def by linarith+
  have "m + 1 \<le> 2 ^ L" using hi by simp
  then have "int (m + 1) \<le> int (2 ^ L)" by (rule iffD2 [OF of_nat_le_iff])
  then have "c \<le> 2 ^ L" using m(2) by simp
  then have "(of_int c :: rat) \<le> of_int (2 ^ L)" by (simp only: of_int_le_iff)
  then have "(of_int c :: rat) \<le> 2 ^ L" by (simp only: of_int_power of_int_numeral)
  with cle have "1 / x \<le> 2 ^ L" by (rule order_trans)
  then have "1 \<le> 2 ^ L * x"
    using assms(1) by (simp add: field_simps)
  then have "1 / 2 ^ L \<le> x"
    by (simp add: field_simps)
  then show "2 powi floor_log2 x \<le> x"
    by (simp add: e power_int_minus_divide)
  have "int (2 ^ (L - 1)) \<le> int m" using lo by (rule iffD2 [OF of_nat_le_iff])
  then have "2 ^ (L - 1) \<le> c - 1" using m(2) by simp
  then have "(of_int (2 ^ (L - 1)) :: rat) \<le> of_int (c - 1)" by (simp only: of_int_le_iff)
  then have "(2 :: rat) ^ (L - 1) \<le> of_int c - 1"
    by (simp only: of_int_power of_int_numeral of_int_diff of_int_1)
  then have "(2 :: rat) ^ (L - 1) < 1 / x" using cgt by (rule le_less_trans)
  then have "2 ^ (L - 1) * x < 1"
    using assms(1) by (simp add: field_simps)
  then have "x < 1 / 2 ^ (L - 1)"
    by (simp add: field_simps)
  moreover have "floor_log2 x + 1 = - int (L - 1)" using Lpos by (simp add: e)
  ultimately show "x < 2 powi (floor_log2 x + 1)"
    by (simp add: power_int_minus_divide)
qed

lemma floor_log2_bounds_pos:
  assumes "0 < x"
  shows "2 powi floor_log2 x \<le> x" and "x < 2 powi (floor_log2 x + 1)"
  using assms floor_log2_bounds(2,3) [of x] floor_log2_bounds_small [of x]
  by (cases "1 \<le> x"; simp)+

lemma round_even_of_int: "round_even (of_int m) = m"
  by (simp add: round_even_def)

lemma fp_round_exact:
  assumes "x / 2 powi (max (floor_log2 \<bar>x\<bar>) emin - int p + 1) = of_int m"
  shows "fp_round p emin x = x"
proof (cases "x = 0")
  case True
  then show ?thesis by (simp add: fp_round_def)
next
  case False
  define u :: rat where "u = 2 powi (max (floor_log2 \<bar>x\<bar>) emin - int p + 1)"
  have u: "u \<noteq> 0" by (simp add: u_def)
  have xu: "x / u = of_int m"
    using assms by (simp only: u_def)
  then have "x = of_int m * u"
    using u by (simp add: field_simps)
  then show ?thesis
    using False xu unfolding fp_round_def Let_def u_def [symmetric]
    by (simp add: round_even_of_int)
qed


lemma to_float_scaled_nat:
  assumes "1 \<le> n" "n \<le> 2 ^ 24" "k \<le> 3"
  shows "to_float (of_nat n / 2 ^ k) = of_nat n / 2 ^ k"
proof -
  define x :: rat where "x = of_nat n / 2 ^ k"
  define e where "e = floor_log2 x"
  have xpos: "0 < x" using assms(1) by (simp add: x_def)
  have lo: "2 powi e \<le> x" and hi: "x < 2 powi (e + 1)"
    using floor_log2_bounds_pos [OF xpos] by (simp_all add: e_def)
  have "(2 :: rat) ^ k \<le> 2 ^ 3" using assms(3) by (intro power_increasing) simp_all
  moreover have "(1 :: rat) \<le> of_nat n" using assms(1) by simp
  ultimately have "1 / 2 ^ 3 \<le> x"
    unfolding x_def by (intro frac_le) simp_all
  then have "(2 :: rat) powi (- 3) < 2 powi (e + 1)"
    using hi by (simp add: power_int_minus_divide)
  then have e3: "- 3 \<le> e"
    using power_int_increasing [of "e + 1" "- 3" "2 :: rat"] by (cases "- 3 \<le> e") simp_all
  have n24: "(of_nat n :: rat) \<le> 2 ^ 24"
    using assms(2) by (metis of_nat_le_iff of_nat_numeral of_nat_power)
  have xk: "x * 2 ^ k = of_nat n" by (simp add: x_def)
  have "\<exists>m. x / 2 powi (e - 23) = of_int m"
  proof (cases "e + int k \<le> 23")
    case True
    define d where "d = nat (23 - e - int k)"
    have "(2 :: rat) powi (23 - e) = 2 powi (int d + int k)"
      using True by (simp add: d_def)
    also have "\<dots> = 2 ^ d * 2 ^ k"
      by (simp add: power_int_add)
    finally have p: "(2 :: rat) powi (23 - e) = 2 ^ d * 2 ^ k" .
    have "(2 :: rat) powi (e - 23) * 2 powi (23 - e) = 2 powi ((e - 23) + (23 - e))"
      by (rule power_int_add [symmetric]) simp
    then have "(2 :: rat) powi (e - 23) * 2 powi (23 - e) = 1" by simp
    then have "x / 2 powi (e - 23) = x * 2 powi (23 - e)"
      by (simp add: field_simps)
    also have "\<dots> = (x * 2 ^ k) * 2 ^ d" by (simp only: p) (simp add: mult_ac)
    also have "\<dots> = of_nat n * 2 ^ d" by (simp only: xk)
    also have "\<dots> = of_int (int n * 2 ^ d)" by simp
    finally show ?thesis by blast
  next
    case False
    then have ek: "24 \<le> e + int k" by simp
    have "(2 :: rat) powi 24 \<le> 2 powi (e + int k)"
      using ek by (intro power_int_increasing) simp_all
    also have "\<dots> = 2 powi e * 2 ^ k" by (simp add: power_int_add)
    also have "\<dots> \<le> x * 2 ^ k" using lo by (intro mult_right_mono) simp_all
    finally have "(2 :: rat) ^ 24 \<le> of_nat n" using xk by simp
    with n24 have n: "(of_nat n :: rat) = 2 ^ 24" by simp
    have "(2 :: rat) powi (e + int k) = 2 powi e * 2 ^ k" by (simp add: power_int_add)
    also have "\<dots> \<le> x * 2 ^ k" using lo by (intro mult_right_mono) simp_all
    finally have "(2 :: rat) powi (e + int k) \<le> 2 powi 24" using xk n by simp
    then have "e + int k \<le> 24"
      using power_int_strict_increasing [of 24 "e + int k" "2 :: rat"]
      by (cases "e + int k \<le> 24") simp_all
    with ek have e: "23 - e = int k - 1" by simp
    have "(2 :: rat) powi (e - 23) * 2 powi (23 - e) = 2 powi ((e - 23) + (23 - e))"
      by (rule power_int_add [symmetric]) simp
    then have "(2 :: rat) powi (e - 23) * 2 powi (23 - e) = 1" by simp
    then have "x / 2 powi (e - 23) = x * 2 powi (23 - e)"
      by (simp add: field_simps)
    also have "\<dots> = x * (2 ^ k / 2)"
      by (simp only: e) (simp add: power_int_diff)
    also have "\<dots> = (x * 2 ^ k) / 2" by simp
    also have "\<dots> = of_int (2 ^ 23)" by (simp only: xk n) simp
    finally show ?thesis by blast
  qed
  then obtain m where "x / 2 powi (max (floor_log2 \<bar>x\<bar>) (- 126) - int 24 + 1) = of_int m"
    using xpos e3 by (auto simp: e_def [symmetric] max_def)
  then have "fp_round 24 (- 126) x = x" by (rule fp_round_exact)
  then show ?thesis by (simp add: to_float_def x_def)
qed

lemma bits_to_bytes_exact:
  assumes "unat n \<le> 2 ^ 24"
  shows "int (unat (bits_to_bytes n)) = \<lceil>(of_nat (unat n) :: rat) / 8\<rceil>"
proof (cases "unat n = 0")
  case True
  then show ?thesis
    by (simp add: bits_to_bytes_def to_float_def fp_round_def to_uint32_def)
next
  case False
  then have n: "1 \<le> unat n" by simp
  have a: "to_float (of_nat (unat n)) = of_nat (unat n)"
    using to_float_scaled_nat [OF n assms, of 0] by simp
  have b: "to_float (of_nat (unat n) / 8) = of_nat (unat n) / 8"
    using to_float_scaled_nat [OF n assms, of 3] by simp
  define c where "c = \<lceil>(of_nat (unat n) :: rat) / 8\<rceil>"
  have "(of_nat (unat n) :: rat) / 8 \<le> 2 ^ 24 / 8"
    using assms by (intro divide_right_mono) (metis of_nat_le_iff of_nat_numeral of_nat_power, simp)
  then have "c \<le> 2097152" unfolding c_def by (simp add: ceiling_le_iff)
  moreover have "(0 :: rat) \<le> of_nat (unat n) / 8"
    by (rule divide_nonneg_nonneg [OF of_nat_0_le_iff]) simp
  then have "0 \<le> c" unfolding c_def zero_le_ceiling by linarith
  ultimately have "uint (word_of_int c :: 32 word) = c"
    using \<open>0 \<le> c\<close> by (simp add: uint_word_of_int)
  moreover have "bits_to_bytes n = to_uint32 (of_int c)"
    unfolding bits_to_bytes_def a b c_def ..
  then have "bits_to_bytes n = word_of_int c"
    using \<open>0 \<le> c\<close> by (simp add: to_uint32_def)
  ultimately show ?thesis
    using \<open>0 \<le> c\<close> by (simp only: c_def [symmetric]) simp
qed

text \<open>
  Claim C6. The claim is \<open>bits_to_bytes n = \<lceil>n / 8\<rceil>\<close> for every \<open>n\<close>. The four values
  that the claim lists are right, but the cast to \<^verbatim>\<open>float\<close> keeps 24 significant bits:
  16777217 is \<open>2 ^ 24 + 1\<close> and becomes 16777216, so the function returns 2097152 where
  \<open>\<lceil>16777217 / 8\<rceil>\<close> is 2097153.
\<close>

theorem bits_to_bytes_float_rounding:
  "bits_to_bytes 16777217 = 2097152 \<and> \<lceil>(16777217 :: rat) / 8\<rceil> = 2097153 \<and>
   bits_to_bytes 0 = 0 \<and> bits_to_bytes 1 = 1 \<and> bits_to_bytes 8 = 1 \<and> bits_to_bytes 9 = 2"
proof -
  have "bits_to_bytes 16777217 = 2097152"
    by (simp add: bits_to_bytes_def to_uint32_def fp_eval floor_rat_div_numeral)
  moreover have "\<lceil>(16777217 :: rat) / 8\<rceil> = 2097153"
    by (simp add: ceiling_rat_div_numeral)
  ultimately show ?thesis
    by (simp only: bits_to_bytes_small)
qed

section \<open>The bit-shift realigner: what the loop does\<close>

lemma next_bit_of_bool: "drop_bit m (c :: 8 word) AND 1 = of_bool (bit c m)"
  by (simp add: and_one_eq bit_iff_odd_drop_bit mod_2_eq_odd)

lemma set_bit_byte:
  assumes "k < 8"
  shows "bit ((b :: 8 word) XOR ((- of_bool x XOR b) AND push_bit k 1)) j \<longleftrightarrow>
         (if j = k then x else bit b j)"
  using assms by (cases x) (auto simp: bit_simps)

lemma buffer_bit_update:
  assumes "j < 8 * length bytes" "i < 8 * length bytes"
  shows "buffer_bit (bytes[i div 8 := (bytes ! (i div 8)) XOR ((- of_bool x XOR (bytes ! (i div 8))) AND push_bit (i mod 8) 1)]) j
     = (if j = i then x else buffer_bit bytes j)"
proof -
  define v where "v = (bytes ! (i div 8)) XOR
      ((- of_bool x XOR (bytes ! (i div 8))) AND push_bit (i mod 8) 1)"
  have i8: "i div 8 < length bytes" "j div 8 < length bytes" using assms by simp_all
  have v: "bit v m \<longleftrightarrow> (if m = i mod 8 then x else bit (bytes ! (i div 8)) m)" for m
    unfolding v_def by (rule set_bit_byte) simp
  show ?thesis
  proof (cases "j div 8 = i div 8")
    case True
    have "j = i \<longleftrightarrow> j mod 8 = i mod 8"
      using True by (metis div_mult_mod_eq)
    moreover have "buffer_bit (bytes[i div 8 := v]) j = bit v (j mod 8)"
      using True i8 by (simp add: buffer_bit_def)
    ultimately show ?thesis
      using True unfolding v_def [symmetric] by (simp add: v buffer_bit_def)
  next
    case False
    then have "j \<noteq> i" by auto
    then show ?thesis
      using False i8 unfolding v_def [symmetric] by (simp add: buffer_bit_def)
  qed
qed

lemma shift_loop_spec:
  assumes "unat (num_bits - 1) = n" "i \<le> n" "n < 8 * length bytes" "n \<le> 2147483647"
  shows "\<exists>bytes'. shift_loop num_bits i bytes = Inr bytes' \<and> length bytes' = length bytes \<and>
           (\<forall>j. i \<le> j \<and> j < n \<longrightarrow> buffer_bit bytes' j = buffer_bit bytes (j + 1)) \<and>
           (\<forall>j. (j < i \<or> n \<le> j) \<and> j < 8 * length bytes \<longrightarrow> buffer_bit bytes' j = buffer_bit bytes j)"
  using assms(2,3)
proof (induction "n - i" arbitrary: i bytes)
  case 0
  then have "i = n" by simp
  then show ?case
    using assms(1) by (subst shift_loop.simps) auto
next
  case (Suc d)
  then have lt: "i < n" by simp
  define x where "x = buffer_bit bytes (i + 1)"
  define bytes1 where "bytes1 = bytes[i div 8 := (bytes ! (i div 8)) XOR
      ((- of_bool x XOR (bytes ! (i div 8))) AND push_bit (i mod 8) 1)]"
  have len1: "length bytes1 = length bytes" by (simp add: bytes1_def)
  have i1: "i + 1 < 8 * length bytes" "i < 8 * length bytes" using lt Suc(4) by simp_all
  have b1: "buffer_bit bytes1 j = (if j = i then x else buffer_bit bytes j)"
    if "j < 8 * length bytes" for j
    unfolding bytes1_def using that i1(2) by (rule buffer_bit_update)
  have d8: "\<not> length bytes \<le> (i + 1) div 8" using i1(1) by simp
  have step: "shift_loop num_bits i bytes = shift_loop num_bits (i + 1) bytes1"
    using lt assms(1,4) d8
    by (subst shift_loop.simps)
       (simp add: Let_def next_bit_of_bool bytes1_def x_def buffer_bit_def)
  have "d = n - (i + 1)" using Suc(2) by simp
  from Suc(1) [OF this, of bytes1] lt Suc(4) len1
  obtain bytes' where r: "shift_loop num_bits (i + 1) bytes1 = Inr bytes'"
    and l: "length bytes' = length bytes"
    and s: "\<And>j. i + 1 \<le> j \<Longrightarrow> j < n \<Longrightarrow> buffer_bit bytes' j = buffer_bit bytes1 (j + 1)"
    and u: "\<And>j. j < i + 1 \<or> n \<le> j \<Longrightarrow> j < 8 * length bytes \<Longrightarrow> buffer_bit bytes' j = buffer_bit bytes1 j"
    by auto
  have "buffer_bit bytes' j = buffer_bit bytes (j + 1)" if "i \<le> j" "j < n" for j
  proof (cases "j = i")
    case True
    then show ?thesis using u [of j] b1 [of j] i1 by (simp add: x_def)
  next
    case False
    then have "i + 1 \<le> j" using that by simp
    moreover have "j + 1 < 8 * length bytes" using that Suc(4) by simp
    ultimately show ?thesis using s [of j] b1 [of "j + 1"] that by simp
  qed
  moreover have "buffer_bit bytes' j = buffer_bit bytes j"
    if "j < i \<or> n \<le> j" "j < 8 * length bytes" for j
  proof -
    have "j \<noteq> i" using that lt by auto
    then show ?thesis using u [of j] b1 [of j] that by auto
  qed
  ultimately show ?case using r l step by simp
qed

text \<open>
  For a buffer that holds \<open>total_bits\<close> bits, with \<open>1 \<le> total_bits \<le> 2 ^ 31\<close>, the call
  returns, bit \<open>j\<close> of the result is the former bit \<open>j + 1\<close> for \<open>j < total_bits - 1\<close>, and
  every other bit of the buffer, bit \<open>total_bits - 1\<close> among them, keeps its value.
\<close>

lemma shift_bits_spec:
  assumes "1 \<le> total_bits" "total_bits \<le> 8 * length bytes" "total_bits \<le> 2 ^ 31"
  shows "\<exists>bytes'. shift_bits bytes (of_nat total_bits) = Inr bytes' \<and> length bytes' = length bytes \<and>
           (\<forall>j. j < total_bits - 1 \<longrightarrow> buffer_bit bytes' j = buffer_bit bytes (j + 1)) \<and>
           (\<forall>j. total_bits - 1 \<le> j \<and> j < 8 * length bytes \<longrightarrow>
              buffer_bit bytes' j = buffer_bit bytes j)"
proof -
  have "unat (of_nat total_bits :: 64 word) = total_bits"
    using assms(3) by (simp add: unat_of_nat)
  moreover have "(of_nat total_bits :: 64 word) \<noteq> 0"
    using calculation assms(1) by auto
  ultimately have n: "unat (of_nat total_bits - 1 :: 64 word) = total_bits - 1"
    by (simp add: unat_minus_one)
  have "total_bits - 1 < 8 * length bytes" "total_bits - 1 \<le> 2147483647"
    using assms by simp_all
  from shift_loop_spec [OF n _ this, of 0] show ?thesis
    by (simp add: shift_bits_def)
qed

lemma shift_loop_length:
  "shift_loop num_bits i bytes = Inr bytes' \<Longrightarrow> length bytes' = length bytes"
proof (induction num_bits i bytes rule: shift_loop.induct)
  case (1 num_bits i bytes)
  show ?case
  proof (cases "i < unat (num_bits - 1) \<and> \<not> 2147483647 \<le> i \<and> \<not> length bytes \<le> (i + 1) div 8")
    case True
    then have "shift_loop num_bits (i + 1)
        (bytes[i div 8 := bytes ! (i div 8) XOR
           ((- (drop_bit ((i + 1) mod 8) (bytes ! ((i + 1) div 8)) AND 1) XOR bytes ! (i div 8))
              AND push_bit (i mod 8) 1)]) = Inr bytes'"
      using "1.prems" by (subst (asm) shift_loop.simps) (simp add: Let_def)
    from "1.IH" [OF _ _ _ refl refl this] True show ?thesis by simp
  next
    case False
    then show ?thesis
      using "1.prems" by (subst (asm) shift_loop.simps) (auto split: if_splits)
  qed
qed

lemma shift_bits_length:
  "shift_bits bytes num_bits = Inr bytes' \<Longrightarrow> length bytes' = length bytes"
  unfolding shift_bits_def by (rule shift_loop_length)

text \<open>
  Claim C5. The claim describes the buffer after \<^verbatim>\<open>shift_bits\<close> for every number of
  bits; for 0 bits it leaves every bit of the buffer as it was. For \<open>num_bits = 0\<close> the
  code computes \<open>num_bits - 1\<close> in \<^verbatim>\<open>uint64_t\<close>, which is \<open>2 ^ 64 - 1\<close>, so the loop
  does not stop at the end of the buffer: on the one-byte buffer 2 it rewrites bits 0 to
  6 and then reads \<^verbatim>\<open>bytes[1]\<close>, outside the buffer.
\<close>

theorem shift_bits_zero_bits:
  "shift_bits [2] 0 = Inl OutOfBounds"
  by (simp add: shift_bits_def shift_loop.simps unsigned_minus_1_eq_mask mask_eq_exp_minus_1)

section \<open>Running the decoder on the bit-stream extractor\<close>

lemma byte_of_bits_zeros [simp]: "byte_of_bits (replicate n False) = 0"
  by (induction n) (simp_all add: byte_of_bits_def)

lemma pack_bits_Nil [simp]: "pack_bits [] = []"
  by (simp add: pack_bits.simps)

lemma pack_bits_zeros: "pack_bits (replicate (8 * k) False) = replicate k 0"
proof (induction k)
  case 0
  then show ?case by simp
next
  case (Suc k)
  have "replicate (8 * Suc k) False = replicate 8 False @ replicate (8 * k) False"
    by (simp add: replicate_add [symmetric])
  then show ?case
    using Suc by (subst pack_bits.simps) simp
qed

lemma pack_bits_24_zeros [simp]: "pack_bits (replicate 24 False) = [0, 0, 0]"
  using pack_bits_zeros [of 3] by (simp add: numeral_3_eq_3)

lemma pack_bits_short:
  "bs \<noteq> [] \<Longrightarrow> length bs \<le> 8 \<Longrightarrow> pack_bits bs = [byte_of_bits bs]"
  by (subst pack_bits.simps) simp

lemma pack_bits_byte:
  "pack_bits (b0 # b1 # b2 # b3 # b4 # b5 # b6 # b7 # rest) =
     byte_of_bits [b0, b1, b2, b3, b4, b5, b6, b7] # pack_bits rest"
  by (subst pack_bits.simps) simp

lemma byte_of_bits_Nil: "byte_of_bits [] = 0"
  by (simp add: byte_of_bits_def)

lemma byte_of_bits_Cons: "byte_of_bits (b # bs) = of_bool b + 2 * byte_of_bits bs"
  by (simp add: byte_of_bits_def)

lemma le_word_zeros [simp]: "le_word (replicate n 0) = 0"
proof -
  have "foldr (\<lambda>b v. unat b + 256 * v) (replicate n (0 :: 8 word)) 0 = 0"
    by (induction n) simp_all
  then show ?thesis by (simp add: le_word_def)
qed

lemmas stream_eval = read_info_def read_field_def stream_collab_def stream_get_data_def
  header_stream_def new_extracted_data_def pack_bits_short pack_bits_byte
  byte_of_bits_Nil byte_of_bits_Cons le_word_def

lemmas fp_eval2 = fp_eval floor_rat_div_numeral ceiling_rat_div_numeral
  floor_rat_one_div_numeral ceiling_rat_one_div_numeral

lemma bits_to_bytes_values:
  "bits_to_bytes 8 = 1" "bits_to_bytes 9 = 2" "bits_to_bytes 16 = 2"
  "bits_to_bytes 24 = 3" "bits_to_bytes 25 = 4" "bits_to_bytes 4294967295 = 536870912"
  by (simp_all add: bits_to_bytes_def to_uint32_def fp_eval2)

lemma read_info_encrypted:
  "read_info (stream_collab (\<lambda>bits s. encrypted_stream) unc) bits candidate =
     (\<lparr>info = \<lparr>magic_bytes = 0, version = 0, enc_algo = 1, enc_mode = 0, payload_size = 8\<rparr>,
       is_encrypted = True, encrypted_payload = [],
       data = \<lparr>is_compressed = 0, uncompressed_size = 0, has_checksum = False, checksum = 0,
               filename = [], file_contents = []\<rparr>\<rparr>,
      [True, False, True, False, False, True, False, True])"
  by (simp add: stream_eval encrypted_stream_def)

lemma read_info_plain:
  "read_info (stream_collab (\<lambda>bits s. plain_stream) unc) bits candidate = (plain_info, plain_session)"
  by (simp add: stream_eval plain_stream_def plain_info_def plain_session_def)


section \<open>The candidate filter\<close>

text \<open>
  A candidate is discarded exactly when the condition at line 220 holds, and
  \<open>max_payload_size\<close> is \<open>\<lfloor>|bits| / 3\<rfloor> - 65\<close> when the carrier has room for the metadata.
\<close>

lemma extract_one_discards:
  "extract_one c bits candidate = Inr None \<longleftrightarrow> discarded bits (fst (read_info c bits candidate))"
  by (auto simp: extract_one_def split: prod.splits sum.splits)

lemma max_payload_size_exact:
  assumes "65 \<le> length bits div 3" "length bits div 3 < 2 ^ 32"
  shows "int (unat (max_payload_size bits)) = int (length bits div 3) - 65"
proof -
  have u: "unat (word_of_nat (length bits div 3) :: 32 word) = length bits div 3"
    using assms(2) by (simp add: unat_of_nat)
  then have "(65 :: 32 word) \<le> word_of_nat (length bits div 3)"
    using assms(1) by (simp add: word_le_nat_alt)
  then have "unat (word_of_nat (length bits div 3) - 65 :: 32 word) = length bits div 3 - 65"
    using u by (simp add: unat_sub)
  then show ?thesis
    using assms(1) by (simp add: max_payload_size_def)
qed

lemma extract_encrypted_example:
  assumes "\<not> max_payload_size bits < 8"
  shows "extract_files (stream_collab (\<lambda>bits s. encrypted_stream) unc) bits [candidate] =
     Inr [\<lparr>info = \<lparr>magic_bytes = 0, version = 0, enc_algo = 1, enc_mode = 0, payload_size = 8\<rparr>,
            is_encrypted = True, encrypted_payload = [165],
            data = \<lparr>is_compressed = 0, uncompressed_size = 0, has_checksum = False, checksum = 0,
                    filename = [], file_contents = []\<rparr>\<rparr>]"
proof -
  have "extract_one (stream_collab (\<lambda>bits s. encrypted_stream) unc) bits candidate =
     Inr (Some \<lparr>info = \<lparr>magic_bytes = 0, version = 0, enc_algo = 1, enc_mode = 0, payload_size = 8\<rparr>,
            is_encrypted = True, encrypted_payload = [165],
            data = \<lparr>is_compressed = 0, uncompressed_size = 0, has_checksum = False, checksum = 0,
                    filename = [], file_contents = []\<rparr>\<rparr>)"
    using assms
    by (simp add: extract_one_def read_info_encrypted discarded_def extract_payload_def
        bits_to_bytes_values read_into_def)
       (simp add: stream_collab_def stream_get_data_def pack_bits_short byte_of_bits_Nil
        byte_of_bits_Cons)
  then show ?thesis
    by (simp add: extract_files_def)
qed

text \<open>
  Claim C3. The claim is that a candidate is discarded if and only if its payload size
  exceeds \<open>\<lfloor>|bits| / 3\<rfloor> - 65\<close>, or its algorithm exceeds 22, or its version is not 0.
  The code computes the bound in \<^verbatim>\<open>uint32_t\<close>. For a carrier of 30 bits the bound of the
  claim is \<open>10 - 65 = - 55\<close>, so a payload size of 8 is to be discarded; in the code the
  subtraction wraps to \<open>2 ^ 32 - 55\<close>, and the candidate is decoded and returned.
\<close>

theorem small_carrier_candidate_accepted:
  "int (length (replicate 30 False)) div 3 - 65 < 8 \<and>
   extract_files (stream_collab (\<lambda>bits s. encrypted_stream) failing_uncompress)
     (replicate 30 False) [7] =
     Inr [\<lparr>info = \<lparr>magic_bytes = 0, version = 0, enc_algo = 1, enc_mode = 0, payload_size = 8\<rparr>,
            is_encrypted = True, encrypted_payload = [165],
            data = \<lparr>is_compressed = 0, uncompressed_size = 0, has_checksum = False, checksum = 0,
                    filename = [], file_contents = []\<rparr>\<rparr>]"
  by (simp add: extract_encrypted_example max_payload_size_def)

section \<open>The payload decoder: the fields of a plaintext payload\<close>

lemma read_into_length:
  "read_into c e buf n = Inr (buf', e') \<Longrightarrow> length buf' = length buf"
  by (auto simp: read_into_def Let_def split: prod.splits if_splits)

lemma read_payload_length:
  assumes "read_payload c e d = Inr (d', payload, psb)"
  shows "length payload < 2 ^ 32"
proof -
  have u: "unat (ucast (w :: 32 word) :: 64 word) < 2 ^ 32" for w
    using unsigned_less [of w, where ?'a = nat] by (simp add: unsigned_ucast_eq take_bit_nat_eq_self)
  show ?thesis
    using assms u
    by (auto simp: read_payload_def Let_def new_array_def split: prod.splits if_splits sum.splits
        dest!: read_into_length)
qed

lemma c_strlen_Inr:
  assumes "c_strlen buf off = Inr len"
  shows "len = length (takeWhile (\<lambda>b. b \<noteq> 0) (drop off buf))"
    and "off + len < length buf" and "buf ! (off + len) = 0"
proof -
  let ?xs = "drop off buf"
  from assms have o: "off \<le> length buf" and z: "0 \<in> set ?xs"
    and len: "len = length (takeWhile (\<lambda>b. b \<noteq> 0) ?xs)"
    by (auto simp: c_strlen_def split: if_splits)
  show "len = length (takeWhile (\<lambda>b. b \<noteq> 0) (drop off buf))" by (rule len)
  have "takeWhile (\<lambda>b. b \<noteq> 0) ?xs \<noteq> ?xs"
    using z by (simp only: takeWhile_eq_all_conv) auto
  then have lt: "len < length ?xs"
    unfolding len using length_takeWhile_le [of "\<lambda>b. b \<noteq> 0" ?xs]
    by (metis le_neq_implies_less takeWhile_eq_take take_all_iff order_refl)
  then show "off + len < length buf" by simp
  have "?xs ! len = 0"
    unfolding len using nth_length_takeWhile [of "\<lambda>b. b \<noteq> 0" ?xs] lt len by auto
  then show "buf ! (off + len) = 0"
    using o by simp
qed

lemma checksum_flag_bit: "((w :: 8 word) AND 1 \<noteq> 0) = bit w 0"
  by (simp add: and_one_eq bit_0 mod_2_eq_odd)

lemma unat_content_length:
  assumes "ci < 2 ^ 32" "cov < 2 ^ 32"
  shows "unat (word_of_int (int cov - int ci) :: 32 word) =
         (if ci \<le> cov then cov - ci else 2 ^ 32 + cov - ci)"
proof (cases "ci \<le> cov")
  case True
  then have "int cov - int ci = int (cov - ci)" by simp
  moreover have "cov - ci < 2 ^ 32" using assms by simp
  ultimately show ?thesis
    using True by (simp only: word_of_int_nat [symmetric] of_int_of_nat_eq unat_of_nat) simp
next
  case False
  then have "int cov - int ci + 2 ^ 32 = int (2 ^ 32 + cov - ci)" using assms by simp
  moreover have "(word_of_int (int cov - int ci) :: 32 word) = word_of_int (int cov - int ci + 2 ^ 32)"
    by simp
  moreover have "2 ^ 32 + cov - ci < (2 ^ 32 :: nat)" using False assms by simp
  ultimately show ?thesis
    using False by (simp only: of_int_of_nat_eq unat_of_nat) simp
qed

lemma parse_payload_Inr:
  assumes "parse_payload d payload psb = Inr r" "length payload < 2 ^ 32"
  shows "\<exists>shifted. shift_bits payload (psb * 8) = Inr shifted \<and>
           has_checksum (data r) = buffer_bit payload 0 \<and>
           checksum (data r) =
             (if has_checksum (data r) then le_word (take 4 shifted) else checksum (data d)) \<and>
           filename (data r) =
             takeWhile (\<lambda>b. b \<noteq> 0) (drop (if has_checksum (data r) then 4 else 0) shifted) \<and>
           shifted ! ((if has_checksum (data r) then 4 else 0) + length (filename (data r))) = 0 \<and>
           file_contents (data r) =
             drop ((if has_checksum (data r) then 4 else 0) + length (filename (data r)) + 1)
               (take (unat (bits_to_bytes (payload_size (info d) - 2))) shifted)"
proof -
  define hc where "hc = (payload ! 0 AND 1 \<noteq> 0)"
  define off :: nat where "off = (if hc then 4 else 0)"
  define cov where "cov = unat (bits_to_bytes (payload_size (info d) - 2))"
  from assms(1) obtain shifted where sh: "shift_bits payload (psb * 8) = Inr shifted"
    by (auto simp: parse_payload_def Let_def split: if_splits sum.splits)
  have ls: "length shifted = length payload"
    using sh by (rule shift_bits_length)
  from assms(1) sh obtain len where sl: "c_strlen shifted off = Inr len"
    by (auto simp: parse_payload_def Let_def off_def hc_def split: if_splits sum.splits)
  note strl = c_strlen_Inr [OF sl]
  have len32: "unat (word_of_nat len :: 32 word) = len"
    using strl(2) ls assms(2) by (simp add: unat_of_nat)
  define ci where "ci = off + len + 1"
  define cl where "cl = (word_of_int (int cov - int ci) :: 32 word)"
  from assms(1) sh sl len32
  have ok: "\<not> length shifted < ci + unat cl"
    and r: "r = d\<lparr>data := (data d)\<lparr>has_checksum := hc,
         checksum := (if hc then le_word (take 4 shifted) else checksum (data d)),
         filename := take len (drop off shifted),
         file_contents := take (unat cl) (drop ci shifted)\<rparr>\<rparr>"
    by (auto simp: parse_payload_def Let_def off_def hc_def ci_def cl_def cov_def
        split: if_splits)
  have ci32: "ci < 2 ^ 32" using strl(2) ls assms(2) by (simp add: ci_def)
  have cov32: "cov < 2 ^ 32"
    unfolding cov_def using unsigned_less [of "bits_to_bytes (payload_size (info d) - 2)", where ?'a = nat]
    by simp
  have cl: "unat cl = (if ci \<le> cov then cov - ci else 2 ^ 32 + cov - ci)"
    unfolding cl_def using ci32 cov32 by (rule unat_content_length)
  have le: "ci \<le> cov"
  proof (rule ccontr)
    assume "\<not> ci \<le> cov"
    then have "ci + unat cl = 2 ^ 32 + cov" using cl ci32 by simp
    then show False using ok ls assms(2) by simp
  qed
  have fc: "take (unat cl) (drop ci shifted) = drop ci (take cov shifted)"
    using cl le by (simp add: drop_take)
  have fn: "take len (drop off shifted) = takeWhile (\<lambda>b. b \<noteq> 0) (drop off shifted)"
    unfolding strl(1) by (rule takeWhile_eq_take [symmetric])
  have lfn: "length (take len (drop off shifted)) = len"
    using strl(2) by simp
  have hcb: "hc = buffer_bit payload 0"
    by (simp add: hc_def buffer_bit_def checksum_flag_bit)
  show ?thesis
    using sh strl(3) fc fn lfn hcb
    by (cases hc) (simp_all add: r off_def ci_def cov_def [symmetric])
qed

lemma read_payload_info:
  assumes "read_payload c e d = Inr (d', payload, psb)"
  shows "info d' = info d"
  using assms
  by (auto simp: read_payload_def Let_def split: prod.splits if_splits sum.splits)

text \<open>
  Claim C4, as amended. For every payload that is not encrypted and that the decoder
  turns into a record: the checksum flag is bit 0 of the payload buffer before the
  shift, the bit that the shift removes. Every other field is read from the shifted
  buffer: when the flag is set the checksum is its first four bytes, read little-endian,
  and the file name starts at byte 4, otherwise at byte 0; the file name is the bytes
  before the first null byte from there on; the contents are the bytes after that null
  byte, up to byte index \<open>bits_to_bytes (payload_size - 2)\<close> of the buffer.
\<close>

theorem plaintext_payload_fields:
  assumes "\<not> is_encrypted d"
    and "read_payload c e d = Inr (d', payload, psb)"
    and "extract_payload c e d = Inr r"
  shows "\<exists>shifted. shift_bits payload (psb * 8) = Inr shifted \<and>
           has_checksum (data r) = buffer_bit payload 0 \<and>
           checksum (data r) =
             (if has_checksum (data r) then le_word (take 4 shifted) else checksum (data d')) \<and>
           filename (data r) =
             takeWhile (\<lambda>b. b \<noteq> 0) (drop (if has_checksum (data r) then 4 else 0) shifted) \<and>
           shifted ! ((if has_checksum (data r) then 4 else 0) + length (filename (data r))) = 0 \<and>
           file_contents (data r) =
             drop ((if has_checksum (data r) then 4 else 0) + length (filename (data r)) + 1)
               (take (unat (bits_to_bytes (payload_size (info d) - 2))) shifted)"
proof -
  have p: "parse_payload d' payload psb = Inr r"
    using assms by (simp add: extract_payload_def)
  have "length payload < 2 ^ 32"
    using assms(2) by (rule read_payload_length)
  from parse_payload_Inr [OF p this] show ?thesis
    by (simp only: read_payload_info [OF assms(2)])
qed

lemma read_payload_plain:
  "read_payload (stream_collab (\<lambda>bits s. plain_stream) unc) plain_session plain_info =
     Inr (plain_info, [194, 0, 208, 0], 4)"
  by (simp add: read_payload_def read_field_def read_into_def plain_info_def plain_session_def
      bits_to_bytes_values new_array_def Let_def
      stream_collab_def stream_get_data_def pack_bits_short pack_bits_byte
      byte_of_bits_Nil byte_of_bits_Cons le_word_def)

lemma shift_plain: "shift_bits [194, 0, 208, 0] 32 = Inr [97, 0, 104, 0]"
  by (simp add: shift_bits_def shift_loop.simps)

lemma parse_payload_plain:
  "parse_payload plain_info [194, 0, 208, 0] 4 = Inr plain_record"
  by (simp add: parse_payload_def shift_plain c_strlen_def plain_info_def plain_record_def
      bits_to_bytes_values)

lemma extract_payload_plain:
  "extract_payload (stream_collab (\<lambda>bits s. plain_stream) unc) plain_session plain_info =
     Inr plain_record"
  by (simp add: extract_payload_def read_payload_plain parse_payload_plain)
     (simp add: plain_info_def)

lemma extract_files_plain:
  assumes "\<not> max_payload_size bits < 26"
  shows "extract_files (stream_collab (\<lambda>bits s. plain_stream) unc) bits [candidate] = Inr [plain_record]"
proof -
  have "\<not> discarded bits plain_info"
    using assms by (simp add: discarded_def plain_info_def)
  then show ?thesis
    by (simp add: extract_files_def extract_one_def read_info_plain extract_payload_plain)
qed

theorem plaintext_payload_fields_witness:
  "\<exists>shifted. shift_bits [194, 0, 208, 0] (4 * 8) = Inr shifted \<and>
     has_checksum (data plain_record) = buffer_bit [194, 0, 208, 0] 0 \<and>
     checksum (data plain_record) =
       (if has_checksum (data plain_record) then le_word (take 4 shifted)
        else checksum (data plain_info)) \<and>
     filename (data plain_record) =
       takeWhile (\<lambda>b. b \<noteq> 0) (drop (if has_checksum (data plain_record) then 4 else 0) shifted) \<and>
     shifted ! ((if has_checksum (data plain_record) then 4 else 0)
                  + length (filename (data plain_record))) = 0 \<and>
     file_contents (data plain_record) =
       drop ((if has_checksum (data plain_record) then 4 else 0)
               + length (filename (data plain_record)) + 1)
         (take (unat (bits_to_bytes (payload_size (info plain_info) - 2))) shifted)"
  by (rule plaintext_payload_fields
        [where c = "stream_collab (\<lambda>bits s. plain_stream) failing_uncompress" and e = plain_session])
     (simp_all add: read_payload_plain extract_payload_plain, simp add: plain_info_def)

text \<open>
  The claim as stated reads the checksum flag from bit 0 of the shifted buffer. In this
  run the payload buffer is 194, 0, 208, 0: its bit 0 is 0 and the record has no
  checksum, while bit 0 of the shifted buffer 97, 0, 104, 0 is 1.
\<close>

theorem checksum_flag_read_before_shift:
  "extract_files (stream_collab (\<lambda>bits s. plain_stream) failing_uncompress)
     (replicate 300 False) [7] = Inr [plain_record] \<and>
   read_payload (stream_collab (\<lambda>bits s. plain_stream) failing_uncompress) plain_session plain_info =
     Inr (plain_info, [194, 0, 208, 0], 4) \<and>
   shift_bits [194, 0, 208, 0] (4 * 8) = Inr [97, 0, 104, 0] \<and>
   buffer_bit [97, 0, 104, 0] 0 \<and>
   \<not> has_checksum (data plain_record) \<and>
   filename (data plain_record) = [97] \<and> file_contents (data plain_record) = [104]"
  by (simp add: extract_files_plain max_payload_size_def read_payload_plain shift_plain)
     (simp add: buffer_bit_def plain_record_def plain_info_def)

section \<open>A payload size of zero\<close>




section \<open>Decompression\<close>

lemma read_payload_status:
  "read_payload (c\<lparr>uncompress := \<lambda>dest n src. (status dest n src, snd (uncompress c dest n src))\<rparr>) e d =
   read_payload c e d"
  by (simp add: read_payload_def read_field_def read_into_def new_array_def Let_def
      split: prod.splits sum.splits)

lemma extract_payload_status:
  "extract_payload (c\<lparr>uncompress := \<lambda>dest n src. (status dest n src, snd (uncompress c dest n src))\<rparr>) e d =
   extract_payload c e d"
  by (simp add: extract_payload_def read_payload_status read_into_def)

lemma extract_one_status:
  "extract_one (c\<lparr>uncompress := \<lambda>dest n src. (status dest n src, snd (uncompress c dest n src))\<rparr>) bits s =
   extract_one c bits s"
  by (simp add: extract_one_def extract_payload_status read_info_def read_field_def Let_def
      split: prod.splits)

lemma extract_loop_status:
  "extract_loop (c\<lparr>uncompress := \<lambda>dest n src. (status dest n src, snd (uncompress c dest n src))\<rparr>)
     bits seeds found =
   extract_loop c bits seeds found"
  by (induction seeds arbitrary: found)
     (simp_all add: extract_one_status split: sum.splits option.splits)

lemma extract_files_status:
  "extract_files (c\<lparr>uncompress := \<lambda>dest n src. (status dest n src, snd (uncompress c dest n src))\<rparr>)
     bits seeds =
   extract_files c bits seeds"
  by (simp add: extract_files_def extract_loop_status)

text \<open>
  The compressed branch of \<^verbatim>\<open>extract_payload\<close>: the record, the buffer and the length
  that go on to the realignment are those that \<^verbatim>\<open>uncompress\<close> leaves, whatever its
  status.
\<close>

lemma parse_payload_keeps:
  assumes "parse_payload d payload psb = Inr r"
  shows "is_compressed (data r) = is_compressed (data d)"
    and "uncompressed_size (data r) = uncompressed_size (data d)"
  using assms
  by (auto simp: parse_payload_def Let_def split: if_splits sum.splits)

lemma read_payload_compressed_branch:
  assumes "read_field c e 1 = (ic, e1)" "ic \<noteq> (0 :: 8 word)"
    and "read_field c e1 32 = (us, e2)"
    and "read_into c e2 (new_array c (unat (bits_to_bytes (payload_size (info d) - 1))))
           (unat (payload_size (info d) - 1)) = Inr (compressed_payload, e3)"
    and "uncompress c (new_array c (unat (bits_to_bytes us))) (ucast (bits_to_bytes us))
           compressed_payload = (status, payload', n')"
  shows "read_payload c e d =
     (if length payload' \<noteq> unat (bits_to_bytes us) then Inl OutOfBounds
      else Inr (d\<lparr>data := (data d)\<lparr>is_compressed := ic, uncompressed_size := us\<rparr>\<rparr>, payload', n'))"
proof -
  have u: "unat (ucast (bits_to_bytes us) :: 64 word) = unat (bits_to_bytes us)"
    by (simp add: unsigned_ucast_eq take_bit_nat_eq_self
        order_less_le_trans [OF unsigned_less])
  show ?thesis
    using assms by (simp add: read_payload_def Let_def u new_array_def)
qed

lemma extract_files_single:
  "extract_files c bits [candidate] =
     (case extract_one c bits candidate of
        Inl f \<Rightarrow> Inl f | Inr None \<Rightarrow> Inr [] | Inr (Some r) \<Rightarrow> Inr [r])"
  by (simp add: extract_files_def split: sum.splits option.splits)

text \<open>
  Three candidates on the bit-stream extractor, with 170 in every byte that the program
  does not write: candidate 1 carries a valid zlib stream of 3 bytes and declares 16,
  candidate 2 the same stream with a damaged checksum, candidate 3 two bytes that are
  no zlib stream.
\<close>

lemma bits_to_bytes_values2:
  "bits_to_bytes 111 = 14" "bits_to_bytes 112 = 14" "bits_to_bytes 128 = 16"
  by (simp_all add: bits_to_bytes_def to_uint32_def fp_eval2)

lemmas junk_eval = junk_collab_def example_derive_def stream_eval

lemma read_info_mismatch:
  "read_info (junk_collab example_derive unc) bits 1 = (mismatch_info, mismatch_session)"
  by (simp add: junk_eval mismatch_stream_def mismatch_info_def)

lemma read_info_damaged:
  "read_info (junk_collab example_derive unc) bits 2 = (mismatch_info, damaged_session)"
  by (simp add: junk_eval damaged_stream_def mismatch_info_def)

lemma read_info_malformed:
  "read_info (junk_collab example_derive unc) bits 3 = (compressed_info, compressed_session)"
  by (simp add: junk_eval compressed_stream_def compressed_info_def compressed_session_def)

lemma new_array_junk:
  "new_array (junk_collab derive unc) n = replicate n 170"
  by (simp add: new_array_def junk_collab_def stream_collab_def map_replicate_const)

lemma junk_collab_sel:
  "get_data (junk_collab derive unc) = stream_get_data"
  "uncompress (junk_collab derive unc) = unc"
  by (simp_all add: junk_collab_def stream_collab_def)

lemma replicate_13: "replicate 13 x = [x, x, x, x, x, x, x, x, x, x, x, x, x]"
  by (simp add: numeral_eq_Suc)

lemma stored_uncompress_values:
  "stored_uncompress (replicate 16 170) 16 zlib_stored = (0, [194, 0, 80] @ replicate 13 170, 3)"
  "stored_uncompress (replicate 16 170) 16 zlib_damaged = (- 3, [194, 0, 80] @ replicate 13 170, 3)"
  "stored_uncompress [170, 170] 2 [85, 1] = (- 3, [170, 170], 0)"
  by (simp_all add: stored_uncompress_def failing_uncompress_def zlib_stored_def zlib_damaged_def)

lemma read_mismatch_fields:
  "read_field (junk_collab derive unc) mismatch_session 1 = (1 :: 8 word, drop 1 mismatch_session)"
  "read_field (junk_collab derive unc) (drop 1 mismatch_session) 32 =
     (128 :: 32 word, drop 33 mismatch_session)"
  "read_into (junk_collab derive unc) (drop 33 mismatch_session) (replicate 14 170) 112 =
     Inr (zlib_stored, [])"
  by (simp_all add: read_field_def read_into_def junk_collab_sel stream_get_data_def
      mismatch_session_def zlib_stored_def pack_bits_short pack_bits_byte
      byte_of_bits_Nil byte_of_bits_Cons le_word_def)

lemma read_damaged_fields:
  "read_field (junk_collab derive unc) damaged_session 1 = (1 :: 8 word, drop 1 damaged_session)"
  "read_field (junk_collab derive unc) (drop 1 damaged_session) 32 =
     (128 :: 32 word, drop 33 damaged_session)"
  "read_into (junk_collab derive unc) (drop 33 damaged_session) (replicate 14 170) 112 =
     Inr (zlib_damaged, [])"
  by (simp_all add: read_field_def read_into_def junk_collab_sel stream_get_data_def
      damaged_session_def zlib_damaged_def pack_bits_short pack_bits_byte
      byte_of_bits_Nil byte_of_bits_Cons le_word_def)

lemma read_malformed_fields:
  "read_field (junk_collab derive unc) compressed_session 1 = (1 :: 8 word, drop 1 compressed_session)"
  "read_field (junk_collab derive unc) (drop 1 compressed_session) 32 =
     (16 :: 32 word, drop 33 compressed_session)"
  "read_into (junk_collab derive unc) (drop 33 compressed_session) (replicate 2 170) 9 =
     Inr ([85, 1], [])"
  by (simp_all add: read_field_def read_into_def junk_collab_sel stream_get_data_def
      compressed_session_def pack_bits_short pack_bits_byte
      byte_of_bits_Nil byte_of_bits_Cons le_word_def)

lemma shift_stored:
  "shift_bits ([194, 0, 80] @ replicate 13 170) 24 = Inr ([97, 0, 40] @ replicate 13 170)"
  by (simp add: shift_bits_def shift_loop.simps replicate_13)

lemma shift_untouched: "shift_bits [170, 170] 0 = Inl OutOfBounds"
  by (simp add: shift_bits_def shift_loop.simps unsigned_minus_1_eq_mask mask_eq_exp_minus_1)

lemma parse_payload_stored:
  "parse_payload
     (mismatch_info\<lparr>data := (data mismatch_info)\<lparr>is_compressed := 1, uncompressed_size := 128\<rparr>\<rparr>)
     ([194, 0, 80] @ replicate 13 170) 3 = Inr mismatch_record"
proof -
  have s: "shift_bits ([194, 0, 80] @ replicate 13 170) (3 * 8) = Inr ([97, 0, 40] @ replicate 13 170)"
    using shift_stored by simp
  show ?thesis
    unfolding parse_payload_def s
    by (simp add: c_strlen_def mismatch_info_def mismatch_record_def bits_to_bytes_values2
        replicate_13)
qed

lemma not_discarded_examples:
  "\<not> discarded (replicate 600 False) mismatch_info"
  "\<not> discarded (replicate 600 False) compressed_info"
  by (simp_all add: discarded_def max_payload_size_def mismatch_info_def compressed_info_def)

lemma replicate_2: "replicate 2 x = [x, x]"
  by (simp add: numeral_2_eq_2)

lemma example_infos:
  "\<not> is_encrypted mismatch_info" "payload_size (info mismatch_info) = 113"
  "\<not> is_encrypted compressed_info" "payload_size (info compressed_info) = 10"
  by (simp_all add: mismatch_info_def compressed_info_def)

lemma mismatch_run:
  "read_field (junk_collab derive unc) mismatch_session 1 = (1 :: 8 word, drop 1 mismatch_session)"
  "read_field (junk_collab derive unc) (drop 1 mismatch_session) 32 =
     (128 :: 32 word, drop 33 mismatch_session)"
  "read_into (junk_collab derive unc) (drop 33 mismatch_session)
     (new_array (junk_collab derive unc) (unat (bits_to_bytes (payload_size (info mismatch_info) - 1))))
     (unat (payload_size (info mismatch_info) - 1)) = Inr (zlib_stored, [])"
  "uncompress (junk_collab derive stored_uncompress)
     (new_array (junk_collab derive stored_uncompress) (unat (bits_to_bytes 128)))
     (ucast (bits_to_bytes 128)) zlib_stored = (0, [194, 0, 80] @ replicate 13 170, 3)"
  by (rule read_mismatch_fields
      | simp add: read_mismatch_fields example_infos bits_to_bytes_values2 new_array_junk
          junk_collab_sel stored_uncompress_values)+

lemma damaged_run:
  "read_field (junk_collab derive unc) damaged_session 1 = (1 :: 8 word, drop 1 damaged_session)"
  "read_field (junk_collab derive unc) (drop 1 damaged_session) 32 =
     (128 :: 32 word, drop 33 damaged_session)"
  "read_into (junk_collab derive unc) (drop 33 damaged_session)
     (new_array (junk_collab derive unc) (unat (bits_to_bytes (payload_size (info mismatch_info) - 1))))
     (unat (payload_size (info mismatch_info) - 1)) = Inr (zlib_damaged, [])"
  "uncompress (junk_collab derive stored_uncompress)
     (new_array (junk_collab derive stored_uncompress) (unat (bits_to_bytes 128)))
     (ucast (bits_to_bytes 128)) zlib_damaged = (- 3, [194, 0, 80] @ replicate 13 170, 3)"
  by (rule read_damaged_fields
      | simp add: read_damaged_fields example_infos bits_to_bytes_values2 new_array_junk
          junk_collab_sel stored_uncompress_values)+

lemma malformed_run:
  "read_field (junk_collab derive unc) compressed_session 1 = (1 :: 8 word, drop 1 compressed_session)"
  "read_field (junk_collab derive unc) (drop 1 compressed_session) 32 =
     (16 :: 32 word, drop 33 compressed_session)"
  "read_into (junk_collab derive unc) (drop 33 compressed_session)
     (new_array (junk_collab derive unc) (unat (bits_to_bytes (payload_size (info compressed_info) - 1))))
     (unat (payload_size (info compressed_info) - 1)) = Inr ([85, 1], [])"
  "uncompress (junk_collab derive stored_uncompress)
     (new_array (junk_collab derive stored_uncompress) (unat (bits_to_bytes 16)))
     (ucast (bits_to_bytes 16)) [85, 1] = (- 3, [170, 170], 0)"
  by (rule read_malformed_fields
      | simp add: read_malformed_fields [unfolded replicate_2] example_infos bits_to_bytes_values
          new_array_junk junk_collab_sel stored_uncompress_values replicate_2)+

lemma one_ne_zero_byte: "(1 :: 8 word) \<noteq> 0"
  by simp

lemma read_payload_mismatch:
  "read_payload (junk_collab derive stored_uncompress) mismatch_session mismatch_info =
     Inr (mismatch_info\<lparr>data := (data mismatch_info)\<lparr>is_compressed := 1, uncompressed_size := 128\<rparr>\<rparr>,
          [194, 0, 80] @ replicate 13 170, 3)"
  using read_payload_compressed_branch [OF mismatch_run(1) one_ne_zero_byte mismatch_run(2,3,4)]
  by (simp add: bits_to_bytes_values2)

lemma read_payload_damaged:
  "read_payload (junk_collab derive stored_uncompress) damaged_session mismatch_info =
     Inr (mismatch_info\<lparr>data := (data mismatch_info)\<lparr>is_compressed := 1, uncompressed_size := 128\<rparr>\<rparr>,
          [194, 0, 80] @ replicate 13 170, 3)"
  using read_payload_compressed_branch [OF damaged_run(1) one_ne_zero_byte damaged_run(2,3,4)]
  by (simp add: bits_to_bytes_values2)

lemma read_payload_malformed:
  "read_payload (junk_collab derive stored_uncompress) compressed_session compressed_info =
     Inr (compressed_info\<lparr>data := (data compressed_info)\<lparr>is_compressed := 1, uncompressed_size := 16\<rparr>\<rparr>,
          [170, 170], 0)"
  using read_payload_compressed_branch [OF malformed_run(1) one_ne_zero_byte malformed_run(2,3,4)]
  by (simp add: bits_to_bytes_values)

lemma extract_one_mismatch:
  "extract_one (junk_collab example_derive stored_uncompress) (replicate 600 False) 1 =
     Inr (Some mismatch_record)"
  by (simp add: extract_one_def read_info_mismatch not_discarded_examples extract_payload_def
      example_infos read_payload_mismatch parse_payload_stored [simplified])

lemma extract_one_damaged:
  "extract_one (junk_collab example_derive stored_uncompress) (replicate 600 False) 2 =
     Inr (Some mismatch_record)"
  by (simp add: extract_one_def read_info_damaged not_discarded_examples extract_payload_def
      example_infos read_payload_damaged parse_payload_stored [simplified])

lemma extract_one_malformed:
  "extract_one (junk_collab example_derive stored_uncompress) (replicate 600 False) 3 =
     Inl OutOfBounds"
  by (simp add: extract_one_def read_info_malformed not_discarded_examples extract_payload_def
      example_infos read_payload_malformed parse_payload_def shift_untouched)

text \<open>
  Claim C7, as amended. For a compressed payload the decoder looks neither at the status
  that \<^verbatim>\<open>uncompress\<close> returns nor at whether the length it reports is the declared
  uncompressed size. Whenever the reported length is not 0, decoding goes on as after a
  successful decompression: its outcome is that of realigning the output buffer over the
  reported length and parsing it, and where this parse is defined the record is appended
  to the result like any other, carrying the declared size and the file name and
  contents found in the realigned buffer. \<open>status\<close> and \<open>n'\<close> are arbitrary here:
  no decode failure is surfaced for a size mismatch or an error status. The premise on
  the length of \<open>payload'\<close> says that the call leaves the destination buffer its size.
\<close>

theorem decompression_outcome_unchecked:
  assumes "read_info c bits candidate = (d, e)"
    and "\<not> discarded bits d" "\<not> is_encrypted d"
    and "read_field c e 1 = (ic, e1)" "ic \<noteq> 0"
    and "read_field c e1 32 = (us, e2)"
    and "read_into c e2 (new_array c (unat (bits_to_bytes (payload_size (info d) - 1))))
           (unat (payload_size (info d) - 1)) = Inr (compressed_payload, e3)"
    and "uncompress c (new_array c (unat (bits_to_bytes us))) (ucast (bits_to_bytes us))
           compressed_payload = (status, payload', n')"
    and "length payload' = unat (bits_to_bytes us)"
    and "n' \<noteq> 0"
  shows "extract_payload c e d =
           parse_payload (d\<lparr>data := (data d)\<lparr>is_compressed := ic, uncompressed_size := us\<rparr>\<rparr>)
             payload' n' \<and>
         (\<forall>r. parse_payload (d\<lparr>data := (data d)\<lparr>is_compressed := ic, uncompressed_size := us\<rparr>\<rparr>)
                payload' n' = Inr r \<longrightarrow>
            extract_one c bits candidate = Inr (Some r) \<and>
            extract_files c bits [candidate] = Inr [r] \<and>
            is_compressed (data r) = ic \<and> uncompressed_size (data r) = us \<and>
            (\<exists>shifted. shift_bits payload' (n' * 8) = Inr shifted \<and>
               has_checksum (data r) = buffer_bit payload' 0 \<and>
               filename (data r) =
                 takeWhile (\<lambda>b. b \<noteq> 0) (drop (if has_checksum (data r) then 4 else 0) shifted) \<and>
               file_contents (data r) =
                 drop ((if has_checksum (data r) then 4 else 0) + length (filename (data r)) + 1)
                   (take (unat (bits_to_bytes (payload_size (info d) - 2))) shifted)))"
proof -
  let ?d2 = "d\<lparr>data := (data d)\<lparr>is_compressed := ic, uncompressed_size := us\<rparr>\<rparr>"
  have rp: "read_payload c e d = Inr (?d2, payload', n')"
    using read_payload_compressed_branch [OF assms(4-8)] assms(9) by simp
  have eq: "extract_payload c e d = parse_payload ?d2 payload' n'"
    using assms(3) by (simp add: extract_payload_def rp)
  have len: "length payload' < 2 ^ 32"
    using assms(9) unsigned_less [of "bits_to_bytes us", where ?'a = nat] by simp
  have "extract_one c bits candidate = Inr (Some r) \<and>
        extract_files c bits [candidate] = Inr [r] \<and>
        is_compressed (data r) = ic \<and> uncompressed_size (data r) = us \<and>
        (\<exists>shifted. shift_bits payload' (n' * 8) = Inr shifted \<and>
           has_checksum (data r) = buffer_bit payload' 0 \<and>
           filename (data r) =
             takeWhile (\<lambda>b. b \<noteq> 0) (drop (if has_checksum (data r) then 4 else 0) shifted) \<and>
           file_contents (data r) =
             drop ((if has_checksum (data r) then 4 else 0) + length (filename (data r)) + 1)
               (take (unat (bits_to_bytes (payload_size (info d) - 2))) shifted))"
    if p: "parse_payload ?d2 payload' n' = Inr r" for r
  proof -
    have one: "extract_one c bits candidate = Inr (Some r)"
      using assms(1,2) by (simp add: extract_one_def eq p)
    then have files: "extract_files c bits [candidate] = Inr [r]"
      by (simp add: extract_files_single)
    from parse_payload_Inr [OF p len] parse_payload_keeps [OF p] one files
    show ?thesis by auto
  qed
  with eq show ?thesis by blast
qed

theorem decompression_outcome_unchecked_witness:
  "uncompress (junk_collab example_derive stored_uncompress) (replicate 16 170) 16 zlib_damaged =
     (- 3, [194, 0, 80] @ replicate 13 170, 3) \<and>
   extract_payload (junk_collab example_derive stored_uncompress) damaged_session mismatch_info =
     Inr mismatch_record \<and>
   extract_one (junk_collab example_derive stored_uncompress) (replicate 600 False) 2 =
     Inr (Some mismatch_record) \<and>
   extract_files (junk_collab example_derive stored_uncompress) (replicate 600 False) [2] =
     Inr [mismatch_record] \<and>
   is_compressed (data mismatch_record) = 1 \<and> uncompressed_size (data mismatch_record) = 128 \<and>
   filename (data mismatch_record) = [97] \<and>
   file_contents (data mismatch_record) = [40] @ replicate 11 170"
proof -
  have len: "length ([194, 0, 80] @ replicate 13 170 :: 8 word list) = unat (bits_to_bytes 128)"
    by (simp add: bits_to_bytes_values2)
  have nz: "(3 :: 64 word) \<noteq> 0"
    by simp
  note run = decompression_outcome_unchecked [OF read_info_damaged not_discarded_examples(1)
      example_infos(1) damaged_run(1) one_ne_zero_byte damaged_run(2,3,4) len nz]
  have "extract_payload (junk_collab example_derive stored_uncompress) damaged_session mismatch_info =
      Inr mismatch_record"
    using run [THEN conjunct1] by (simp only: parse_payload_stored)
  moreover have "extract_one (junk_collab example_derive stored_uncompress) (replicate 600 False) 2 =
      Inr (Some mismatch_record)"
    and "extract_files (junk_collab example_derive stored_uncompress) (replicate 600 False) [2] =
      Inr [mismatch_record]"
    using run [THEN conjunct2, rule_format, OF parse_payload_stored] by blast+
  moreover have "file_contents (data mismatch_record) = [40] @ replicate 11 170"
    by (simp add: mismatch_record_def numeral_eq_Suc)
  ultimately show ?thesis
    by (simp add: junk_collab_sel stored_uncompress_values [simplified] mismatch_record_def)
qed

text \<open>
  The claim as stated wants a decompression that does not give the declared size, and a
  malformed stream, surfaced as a failure of that record, the other records being
  unaffected. Candidate 1 declares 128 bits (16 bytes) and decompresses to 3 bytes with
  status \<^verbatim>\<open>Z_OK\<close>; candidate 2 does the same with status \<^verbatim>\<open>Z_DATA_ERROR\<close>. Both are
  returned as ordinary records, equal to each other, whose contents are one
  decompressed byte and eleven bytes that nothing has written. For candidate 3
  \<^verbatim>\<open>uncompress\<close> reports the length 0, the realignment over 0 bits runs outside the
  buffer, and the batch, with the record of candidate 1, is lost.
\<close>

theorem decompression_failure_not_surfaced:
  "stored_uncompress (replicate 16 170) 16 zlib_stored = (0, [194, 0, 80] @ replicate 13 170, 3) \<and>
   stored_uncompress (replicate 16 170) 16 zlib_damaged = (- 3, [194, 0, 80] @ replicate 13 170, 3) \<and>
   bits_to_bytes 128 = 16 \<and>
   extract_files (junk_collab example_derive stored_uncompress) (replicate 600 False) [1, 2] =
     Inr [mismatch_record, mismatch_record] \<and>
   uncompressed_size (data mismatch_record) = 128 \<and>
   stored_uncompress [170, 170] 2 [85, 1] = (- 3, [170, 170], 0) \<and>
   extract_files (junk_collab example_derive stored_uncompress) (replicate 600 False) [1, 3] =
     Inl OutOfBounds"
  by (simp add: stored_uncompress_values bits_to_bytes_values2 extract_files_def
      extract_one_mismatch extract_one_damaged extract_one_malformed mismatch_record_def)

section \<open>Preconditions\<close>

lemma find_valid_seeds_no_worker:
  assumes "sint n = 0"
  shows "find_valid_seeds cm bits n = Inr []"
  using assms by (simp add: find_valid_seeds_def merge_results_def)

lemma seed_in_range_found:
  assumes "0 < sint n" "i < nat (sint n)"
    and "start_seed_of n i \<le> s" "s < end_seed_of n i" "cm bits s"
  shows "\<exists>seeds. find_valid_seeds cm bits n = Inr seeds \<and> s \<in> set seeds"
proof -
  let ?st = "start_seed_of n i" and ?en = "end_seed_of n i"
  have lt: "?st < ?en" using assms(1,2) by (rule worker_range_nonempty)
  have w: "snd (worker cm bits n i) =
      filter (cm bits) (map (\<lambda>j. ?st + of_nat j) [0..<unat ?en - unat ?st])"
    by (simp add: worker_def crack_seeds_eq [OF lt])
  define j where "j = unat s - unat ?st"
  have j: "j < unat ?en - unat ?st" "unat s = unat ?st + j"
    using assms(3,4) by (simp_all add: j_def word_le_nat_alt word_less_nat_alt)
  have "unat s < 2 ^ 32" using unsigned_less [of s, where ?'a = nat] by simp
  then have "unat (?st + of_nat j) = unat ?st + j"
    using j(2) by (intro unat_seed_offset) simp
  then have "s = ?st + of_nat j"
    using j(2) by (simp add: word_unat_eq_iff)
  then have "s \<in> set (map (\<lambda>j. ?st + of_nat j) [0..<unat ?en - unat ?st])"
    using j(1) by auto
  then have "s \<in> set (snd (worker cm bits n i))"
    using assms(5) by (simp add: w)
  then have "s \<in> set (merge_results cm bits n)"
    using assms(2) by (auto simp: merge_results_def)
  then show ?thesis
    using assms(1) by (simp add: find_valid_seeds_def)
qed

text \<open>
  The claim as stated has a carrier that is too small for the metadata rejected before
  any search. With the empty carrier and one worker the search runs and returns seed 7
  when its magic check passes, and \<^verbatim>\<open>extract_files\<close> decodes a candidate.
\<close>

theorem search_runs_on_empty_carrier:
  "length ([] :: bool list) div 3 < 65 \<and>
   (\<exists>seeds. find_valid_seeds (\<lambda>bits s. s = 7) [] 1 = Inr seeds \<and> 7 \<in> set seeds) \<and>
   extract_files (stream_collab (\<lambda>bits s. encrypted_stream) failing_uncompress) [] [7] =
     Inr [\<lparr>info = \<lparr>magic_bytes = 0, version = 0, enc_algo = 1, enc_mode = 0, payload_size = 8\<rparr>,
            is_encrypted = True, encrypted_payload = [165],
            data = \<lparr>is_compressed = 0, uncompressed_size = 0, has_checksum = False, checksum = 0,
                    filename = [], file_contents = []\<rparr>\<rparr>]"
proof -
  have "\<exists>seeds. find_valid_seeds (\<lambda>bits s. s = 7) [] 1 = Inr seeds \<and> 7 \<in> set seeds"
    by (rule seed_in_range_found [where i = 0]) (simp_all add: single_worker_range)
  then show ?thesis
    by (simp add: extract_encrypted_example max_payload_size_def)
qed

text \<open>
  Claim C8, as amended. Nothing checks the arguments. With \<open>num_threads = 0\<close>
  \<^verbatim>\<open>find_valid_seeds\<close> starts no worker and, after the progress display, returns the
  empty list, an ordinary result.
  With \<open>num_threads \<ge> 1\<close> every seed of a worker's range that passes the magic check is
  returned, whatever the size of the carrier.
\<close>

theorem no_precondition_check:
  "(sint num_threads = 0 \<longrightarrow> find_valid_seeds check_magic bits num_threads = Inr []) \<and>
   (0 < sint num_threads \<and> i < nat (sint num_threads) \<and>
    start_seed_of num_threads i \<le> s \<and> s < end_seed_of num_threads i \<and> check_magic bits s \<longrightarrow>
      (\<exists>seeds. find_valid_seeds check_magic bits num_threads = Inr seeds \<and> s \<in> set seeds))"
  using find_valid_seeds_no_worker seed_in_range_found by blast

theorem no_precondition_check_witness:
  "find_valid_seeds (\<lambda>bits s. s = 7) [] 0 = Inr [] \<and>
   (\<exists>seeds. find_valid_seeds (\<lambda>bits s. s = 7) [] 1 = Inr seeds \<and> 7 \<in> set seeds)"
  using no_precondition_check [where num_threads = 0 and check_magic = "\<lambda>bits s. s = 7"
        and bits = "[]"]
    no_precondition_check [where num_threads = 1 and i = 0 and s = 7
        and check_magic = "\<lambda>bits s. s = 7" and bits = "[]"]
  by (simp add: single_worker_range)

end
